theory Spec2Isabelle
  imports Main
begin

section \<open>forg: a file organizer (src/main.cpp)\<close>

text \<open>
  A shallow embedding of \<^verbatim>\<open>src/main.cpp\<close>. A \<^verbatim>\<open>std::string\<close> is a \<^typ>\<open>string\<close>
  (a list of 8-bit characters), \<^verbatim>\<open>std::string::npos\<close> is \<^term>\<open>None\<close>, a
  \<^verbatim>\<open>std::map\<close> is an association list kept in ascending key order (the order
  in which a range-for visits it), and the file system is an explicit state.
\<close>

subsection \<open>Strings\<close>

text \<open>
  \<^verbatim>\<open>std::tolower\<close> on an \<^verbatim>\<open>unsigned char\<close>. The program never calls
  \<^verbatim>\<open>setlocale\<close>, so the "C" locale applies: exactly the letters A to Z (codes
  65 to 90) are mapped, by adding 32.
\<close>

definition tolower :: "char \<Rightarrow> char" where
  "tolower c =
     (if 65 \<le> (of_char c :: nat) \<and> (of_char c :: nat) \<le> 90
      then char_of ((of_char c :: nat) + 32) else c)"

text \<open>\<^verbatim>\<open>std::toupper\<close>, used only to state case-insensitivity.\<close>

definition toupper :: "char \<Rightarrow> char" where
  "toupper c =
     (if 97 \<le> (of_char c :: nat) \<and> (of_char c :: nat) \<le> 122
      then char_of ((of_char c :: nat) - 32) else c)"

definition toLowerCase :: "string \<Rightarrow> string" where
  "toLowerCase str = map tolower str"

text \<open>\<^verbatim>\<open>s.rfind(c)\<close>: the index of the last occurrence, \<^term>\<open>None\<close> for npos.\<close>

fun rfind :: "string \<Rightarrow> char \<Rightarrow> nat option" where
  "rfind [] c = None"
| "rfind (x # xs) c =
     (case rfind xs c of
        Some i \<Rightarrow> Some (Suc i)
      | None \<Rightarrow> (if x = c then Some 0 else None))"

text \<open>\<^verbatim>\<open>s.substr(pos)\<close> and \<^verbatim>\<open>s.substr(0, n)\<close>, for positions inside the string.\<close>

definition substr_from :: "string \<Rightarrow> nat \<Rightarrow> string" where
  "substr_from s pos = drop pos s"

definition substr_to :: "string \<Rightarrow> nat \<Rightarrow> string" where
  "substr_to s n = take n s"

subsection \<open>The classifier\<close>

definition getFileExtension :: "string \<Rightarrow> string" where
  "getFileExtension filename =
     (case rfind filename (CHR ''.'') of
        None \<Rightarrow> ''''
      | Some dotPos \<Rightarrow>
          (if dotPos = length filename - 1 then ''''
           else toLowerCase (substr_from filename (dotPos + 1))))"

text \<open>
  Comparison of \<^verbatim>\<open>std::string\<close> keys by \<^verbatim>\<open>std::less\<close>: lexicographic on
  the character codes.
\<close>

fun string_less :: "string \<Rightarrow> string \<Rightarrow> bool" where
  "string_less [] [] = False"
| "string_less [] (y # ys) = True"
| "string_less (x # xs) [] = False"
| "string_less (x # xs) (y # ys) =
     ((of_char x :: nat) < of_char y \<or> (x = y \<and> string_less xs ys))"

text \<open>
  \<^verbatim>\<open>std::map::insert\<close> into the key-ordered sequence: an existing key keeps its
  value. The constructor from an initializer list inserts the pairs one by one.
\<close>

fun map_insert :: "string \<Rightarrow> 'v \<Rightarrow> (string \<times> 'v) list \<Rightarrow> (string \<times> 'v) list" where
  "map_insert k v [] = [(k, v)]"
| "map_insert k v ((k', v') # rest) =
     (if k = k' then (k', v') # rest
      else if string_less k k' then (k, v) # (k', v') # rest
      else (k', v') # map_insert k v rest)"

definition std_map :: "(string \<times> 'v) list \<Rightarrow> (string \<times> 'v) list" where
  "std_map init = foldl (\<lambda>m (k, v). map_insert k v m) [] init"

text \<open>The initializer list of \<^verbatim>\<open>FILE_CATEGORIES\<close>, as written in the source.\<close>

definition FILE_CATEGORIES_init :: "(string \<times> string list) list" where
  "FILE_CATEGORIES_init =
    [(''Images'', [''jpg'', ''jpeg'', ''png'', ''gif'', ''bmp'', ''tiff'', ''svg'', ''webp'',
                   ''ico'', ''psd'', ''ai'', ''eps'']),
     (''Videos'', [''mp4'', ''mkv'', ''avi'', ''mov'', ''wmv'', ''flv'', ''webm'', ''m4v'',
                   ''mpeg'', ''mpg'', ''3gp'', ''rmvb'']),
     (''Audio'', [''mp3'', ''wav'', ''flac'', ''aac'', ''ogg'', ''m4a'', ''wma'', ''aiff'',
                  ''mid'', ''midi'']),
     (''Documents'', [''pdf'', ''doc'', ''docx'', ''txt'', ''rtf'', ''odt'', ''xls'', ''xlsx'',
                      ''ppt'', ''pptx'', ''csv'', ''md'', ''markdown'', ''log'']),
     (''Archives'', [''zip'', ''rar'', ''7z'', ''tar'', ''gz'', ''bz2'', ''xz'', ''iso'',
                     ''dmg'', ''pkg'', ''deb'', ''rpm'']),
     (''Code'', [''cpp'', ''c'', ''h'', ''hpp'', ''py'', ''js'', ''ts'', ''html'', ''htm'',
                 ''css'', ''scss'', ''java'', ''go'', ''rs'', ''rb'', ''php'', ''swift'', ''kt'',
                 ''scala'', ''sh'', ''bash'', ''json'', ''xml'', ''yaml'', ''yml'', ''toml'',
                 ''ini'', ''cfg'', ''conf'']),
     (''Executables'', [''exe'', ''app'', ''bin'', ''msi'', ''run'', ''elf'', ''so'', ''dll'',
                        ''dylib'']),
     (''Database'', [''sql'', ''db'', ''sqlite'', ''mdb'', ''accdb'', ''frm'', ''ibd'']),
     (''Books'', [''epub'', ''mobi'', ''azw'', ''azw3'', ''fb2'', ''djvu'', ''chm''])]"

definition FILE_CATEGORIES :: "(string \<times> string list) list" where
  "FILE_CATEGORIES = std_map FILE_CATEGORIES_init"

text \<open>
  The range-for of \<^verbatim>\<open>getCategory\<close> over a map, with \<^verbatim>\<open>std::find\<close> as list
  membership: the first entry whose extension list holds the extension wins.
\<close>

fun getCategory_loop :: "(string \<times> string list) list \<Rightarrow> string \<Rightarrow> string" where
  "getCategory_loop [] extension = ''Others''"
| "getCategory_loop ((category, extensions) # rest) extension =
     (if extension \<in> set extensions then category
      else getCategory_loop rest extension)"

text \<open>\<^verbatim>\<open>getCategory\<close> over a given table, and over the program's table.\<close>

definition getCategory_in :: "(string \<times> string list) list \<Rightarrow> string \<Rightarrow> string" where
  "getCategory_in table extension =
     (if extension = [] then ''Others'' else getCategory_loop table extension)"

definition getCategory :: "string \<Rightarrow> string" where
  "getCategory extension = getCategory_in FILE_CATEGORIES extension"

text \<open>
  The classifier, as both call sites compose it:
  \<^verbatim>\<open>getCategory(getFileExtension(filename))\<close>.
\<close>

definition classify :: "string \<Rightarrow> string" where
  "classify filename = getCategory (getFileExtension filename)"

subsection \<open>Skip rules\<close>

definition SKIP_PATTERNS :: "string list" where
  "SKIP_PATTERNS =
    [''.git'', ''.svn'', ''.hg'', ''.bzr'',
     ''.vscode'', ''.idea'', ''.vs'',
     ''build'', ''dist'', ''node_modules'', ''.cache'', ''__pycache__'',
     ''.DS_Store'', ''Thumbs.db'', ''.Spotlight-V100'', ''.Trashes'']"

text \<open>
  A \<^verbatim>\<open>fs::path\<close> is the list of the names that lead from the root to the entry.
  \<^verbatim>\<open>p / s\<close> reads the string \<open>s\<close> as a path: the names between its separators
  are entered one after the other, starting from \<open>p\<close>, or from the root when \<open>s\<close>
  begins with a separator. Entering \<open>.\<close> stays, entering \<open>..\<close> leaves the last
  directory: the two are resolved on the path itself, as the system resolves them when
  the directory that is left exists and is no symbolic link. \<^verbatim>\<open>path.filename()\<close> is
  the last name, empty for the empty path.
\<close>

type_synonym path = "string list"

definition split_path :: "string \<Rightarrow> string list" where
  "split_path s =
     filter (\<lambda>name. name \<noteq> [])
       (foldr (\<lambda>c names. if c = CHR ''/'' then [] # names else (c # hd names) # tl names)
          s [[]])"

definition enter :: "path \<Rightarrow> string \<Rightarrow> path" where
  "enter p name =
     (if name = ''.'' then p else if name = ''..'' then butlast p else p @ [name])"

definition path_div :: "path \<Rightarrow> string \<Rightarrow> path" where
  "path_div p s =
     foldl enter (if s \<noteq> [] \<and> hd s = CHR ''/'' then [] else p) (split_path s)"

definition path_filename :: "path \<Rightarrow> string" where
  "path_filename p = (if p = [] then [] else last p)"

text \<open>The two tests of \<^verbatim>\<open>shouldSkip\<close>, on the file name of the path.\<close>

definition starts_with_dot :: "string \<Rightarrow> bool" where
  "starts_with_dot filename = (filename \<noteq> [] \<and> hd filename = CHR ''.'')"

definition shouldSkip :: "path \<Rightarrow> bool" where
  "shouldSkip p =
     (let filename = path_filename p
      in if starts_with_dot filename then True
         else if filename \<in> set SKIP_PATTERNS then True
         else False)"

subsection \<open>The file system\<close>

text \<open>
  The state of the file system: the working directory, every other existing entry with
  its kind in the order a directory iteration yields them, and what the process is not
  permitted: the directories it cannot read (\<open>denied\<close>: their entries cannot be
  listed), the directories it cannot search (\<open>locked\<close>: no path through them can be
  looked up) and the directories it cannot write (\<open>readonly\<close>: no entry can be
  created in them, renamed into them or renamed out of them). Every entry that is not a
  directory is a \<open>RegularFile\<close>. The working directory and the directories above it
  exist without being listed in \<open>nodes\<close>.
\<close>

datatype kind = RegularFile | Directory

datatype filesystem_error = filesystem_error

record world =
  cwd :: path
  nodes :: "(path \<times> kind) list"
  denied :: "path list"
  locked :: "path list"
  readonly :: "path list"

definition current_path :: "world \<Rightarrow> path" where
  "current_path w = cwd w"

text \<open>\<open>d\<close> is a directory on the way to \<open>p\<close>, other than \<open>p\<close> itself.\<close>

definition above :: "path \<Rightarrow> path \<Rightarrow> bool" where
  "above d p = (length d < length p \<and> take (length d) p = d)"

text \<open>What is at \<open>p\<close>, and whether every directory on the way to \<open>p\<close> can be searched.\<close>

definition entry_kind :: "world \<Rightarrow> path \<Rightarrow> kind option" where
  "entry_kind w p =
     (if take (length p) (cwd w) = p then Some Directory else map_of (nodes w) p)"

definition searchable :: "world \<Rightarrow> path \<Rightarrow> bool" where
  "searchable w p = (\<not> list_ex (\<lambda>d. above d p) (locked w))"

text \<open>
  \<^verbatim>\<open>fs::exists(p)\<close>, the overload that throws: the exception when a directory on the
  way to \<open>p\<close> cannot be searched, otherwise whether there is an entry at \<open>p\<close>.
\<close>

definition fs_exists :: "world \<Rightarrow> path \<Rightarrow> filesystem_error + bool" where
  "fs_exists w p =
     (if searchable w p then Inr (entry_kind w p \<noteq> None) else Inl filesystem_error)"

text \<open>
  \<^verbatim>\<open>fs::directory_iterator(dir)\<close>: the entries whose parent is \<open>dir\<close>, or the
  exception when the directory cannot be read.
\<close>

definition directory_iterator :: "world \<Rightarrow> path \<Rightarrow> filesystem_error + (path \<times> kind) list" where
  "directory_iterator w dir =
     (if dir \<in> set (denied w) then Inl filesystem_error
      else Inr (filter (\<lambda>e. fst e \<noteq> [] \<and> butlast (fst e) = dir) (nodes w)))"

definition is_directory :: "path \<times> kind \<Rightarrow> bool" where
  "is_directory entry = (snd entry = Directory)"

text \<open>
  Creating one directory: nothing to do when it is there, an error when the way to it
  cannot be searched, when the name is taken by something that is not a directory, or
  when the directory it would be created in is read-only.
\<close>

definition make_directory :: "world \<Rightarrow> path \<Rightarrow> filesystem_error + world" where
  "make_directory w p =
     (if \<not> searchable w p then Inl filesystem_error
      else
        (case entry_kind w p of
           Some Directory \<Rightarrow> Inr w
         | Some RegularFile \<Rightarrow> Inl filesystem_error
         | None \<Rightarrow>
             (if butlast p \<in> set (readonly w) then Inl filesystem_error
              else Inr (w\<lparr>nodes := nodes w @ [(p, Directory)]\<rparr>))))"

text \<open>
  \<^verbatim>\<open>fs::create_directories(p)\<close>: the directories on the way to \<open>p\<close>, and \<open>p\<close>
  itself, are created where they are missing, the outermost first. When one of them
  cannot be created the exception is thrown, and those created before it stay: the
  error comes with the state reached.
\<close>

fun create_each :: "world \<Rightarrow> path list \<Rightarrow> (filesystem_error \<times> world) + world" where
  "create_each w [] = Inr w"
| "create_each w (p # ps) =
     (case make_directory w p of
        Inl e \<Rightarrow> Inl (e, w)
      | Inr w' \<Rightarrow> create_each w' ps)"

definition create_directories :: "world \<Rightarrow> path \<Rightarrow> (filesystem_error \<times> world) + world" where
  "create_directories w p = create_each w (map (\<lambda>n. take n p) [1..<Suc (length p)])"

text \<open>
  \<^verbatim>\<open>fs::rename(src, dst)\<close> of an entry that is not a directory. It fails when the
  source has vanished, when the way to the source or to the destination cannot be
  searched, when the directory of the source or of the destination is read-only, when
  the directory of the destination does not exist, and when the destination is a
  directory; otherwise the entry leaves \<open>src\<close> and is at \<open>dst\<close>, replacing a file
  that was there.
\<close>

definition rename :: "world \<Rightarrow> path \<Rightarrow> path \<Rightarrow> filesystem_error + world" where
  "rename w src dst =
     (case map_of (nodes w) src of
        None \<Rightarrow> Inl filesystem_error
      | Some k \<Rightarrow>
          (if \<not> searchable w src \<or> \<not> searchable w dst
              \<or> butlast src \<in> set (readonly w) \<or> butlast dst \<in> set (readonly w)
              \<or> entry_kind w (butlast dst) \<noteq> Some Directory
              \<or> entry_kind w dst = Some Directory
           then Inl filesystem_error
           else Inr (w\<lparr>nodes := filter (\<lambda>e. fst e \<noteq> src \<and> fst e \<noteq> dst) (nodes w) @ [(dst, k)]\<rparr>)))"

subsection \<open>Unique target names\<close>

text \<open>\<^verbatim>\<open>std::to_string\<close> of an integer: its decimal digits, with a sign when negative.\<close>

fun digits_of :: "nat \<Rightarrow> string" where
  "digits_of n =
     (if n < 10 then [char_of (48 + n)]
      else digits_of (n div 10) @ [char_of (48 + n mod 10)])"

declare digits_of.simps [simp del]

definition to_string :: "int \<Rightarrow> string" where
  "to_string i = (if i < 0 then CHR ''-'' # digits_of (nat (- i)) else digits_of (nat i))"

text \<open>
  The \<^verbatim>\<open>while (true)\<close> loop of \<^verbatim>\<open>getUniquePath\<close>. \<open>now\<close> is the reading of
  the system clock in milliseconds. The result is the path returned, or the exception
  of \<^verbatim>\<open>fs::exists\<close>, which \<^verbatim>\<open>getUniquePath\<close> does not catch. A run of the loop
  that never ended would be \<^term>\<open>None\<close>.
\<close>

definition newName :: "string \<Rightarrow> int \<Rightarrow> string \<Rightarrow> string" where
  "newName baseName n extension = baseName @ ''_'' @ to_string n @ extension"

partial_function (option) getUniquePath_loop ::
  "world \<Rightarrow> int \<Rightarrow> path \<Rightarrow> string \<Rightarrow> string \<Rightarrow> int \<Rightarrow> (filesystem_error + path) option" where
  "getUniquePath_loop w now dir baseName extension counter =
     (case fs_exists w (path_div dir (newName baseName counter extension)) of
        Inl e \<Rightarrow> Some (Inl e)
      | Inr found \<Rightarrow>
          (if \<not> found then Some (Inr (path_div dir (newName baseName counter extension)))
           else if counter + 1 > 1000
           then Some (Inr (path_div dir (newName baseName now extension)))
           else getUniquePath_loop w now dir baseName extension (counter + 1)))"

declare getUniquePath_loop.simps [code]

text \<open>
  The split of the file name into \<open>baseName\<close> and \<open>extension\<close> (lines 156 to 165):
  at the last dot, which stays with the extension, unless there is none or it is the
  first character.
\<close>

definition split_name :: "string \<Rightarrow> string \<times> string" where
  "split_name filename =
     (case rfind filename (CHR ''.'') of
        None \<Rightarrow> (filename, '''')
      | Some dotPos \<Rightarrow>
          (if dotPos > 0 then (substr_to filename dotPos, substr_from filename dotPos)
           else (filename, '''')))"

definition getUniquePath ::
  "world \<Rightarrow> int \<Rightarrow> path \<Rightarrow> string \<Rightarrow> (filesystem_error + path) option" where
  "getUniquePath w now dir filename =
     (case fs_exists w (path_div dir filename) of
        Inl e \<Rightarrow> Some (Inl e)
      | Inr found \<Rightarrow>
          (if \<not> found then Some (Inr (path_div dir filename))
           else getUniquePath_loop w now dir
                  (fst (split_name filename)) (snd (split_name filename)) 1))"

subsection \<open>Configuration and argument parsing\<close>

record config =
  prefix :: string
  verbose :: bool
  dryRun :: bool
  recursive :: bool
  depth :: int
  showHelp :: bool
  showVersion :: bool

definition default_config :: config where
  "default_config =
     \<lparr>prefix = '''', verbose = False, dryRun = False, recursive = False, depth = 1,
      showHelp = False, showVersion = False\<rparr>"

text \<open>
  What the program prints, one constructor for each output statement (blank lines and
  the rules of the summary table are left out; the text of \<^verbatim>\<open>e.what()\<close> is not
  kept). The last three are written to the error stream by the argument parser.
\<close>

datatype msg =
    OrganizingIn path
  | RecursiveModeEnabled int
  | UsingPrefix string
  | DryRunMode
  | SkippingPath path
  | SkippingDirectory string
  | SkippingProgramFile string
  | SkippingFile string
  | ErrorAccessingDirectory path
  | NoFilesToOrganize
  | ErrorCreatingDirectory string
  | MovingFromTo string path path
  | MovedLine string string
  | ErrorMoving string
  | DryRunLine string string
  | OrganizationComplete
  | CategoryCount string int
  | TotalLine nat
  | SkippedCount int
  | ErrorsCount int
  | HelpText
  | VersionText
  | WarnDepthTooSmall
  | WarnInvalidDepth
  | UnknownOption string

text \<open>
  \<^verbatim>\<open>std::stoi\<close> in base 10: leading white space is skipped, one sign is accepted,
  then the longest run of digits is read and the rest of the string is ignored. It
  throws \<^verbatim>\<open>std::invalid_argument\<close> when there is no digit and
  \<^verbatim>\<open>std::out_of_range\<close> when the value does not fit an \<^verbatim>\<open>int\<close> of 32 bits.
\<close>

datatype stoi_error = invalid_argument | out_of_range

definition isspace :: "char \<Rightarrow> bool" where
  "isspace c = ((of_char c :: nat) = 32 \<or> (9 \<le> (of_char c :: nat) \<and> (of_char c :: nat) \<le> 13))"

definition isdigit :: "char \<Rightarrow> bool" where
  "isdigit c = (48 \<le> (of_char c :: nat) \<and> (of_char c :: nat) \<le> 57)"

definition digits_value :: "string \<Rightarrow> int" where
  "digits_value ds = foldl (\<lambda>acc c. acc * 10 + (int (of_char c) - 48)) 0 ds"

definition stoi :: "string \<Rightarrow> stoi_error + int" where
  "stoi str =
     (let s1 = dropWhile isspace str;
          negative = (s1 \<noteq> [] \<and> hd s1 = CHR ''-'');
          s2 = (if s1 \<noteq> [] \<and> (hd s1 = CHR ''-'' \<or> hd s1 = CHR ''+'') then tl s1 else s1);
          ds = takeWhile isdigit s2;
          v = (if negative then - digits_value ds else digits_value ds)
      in if ds = [] then Inl invalid_argument
         else if v < - 2147483648 \<or> 2147483647 < v then Inl out_of_range
         else Inr v)"

text \<open>
  The \<^verbatim>\<open>for\<close> loop of \<^verbatim>\<open>parseArguments\<close> over \<open>argv\<close>, with \<open>argc\<close> the
  length of \<open>argv\<close>. The state is the configuration and the lines written to the
  error stream. Each recursive call is the next iteration, entered after the
  \<^verbatim>\<open>i++\<close> of the loop header: an option with a value has advanced \<open>i\<close> once more
  (\<^verbatim>\<open>argv[++i]\<close>), and the handler of a failed \<^verbatim>\<open>std::stoi\<close> once more again.
\<close>

function parseArguments_loop :: "string list \<Rightarrow> nat \<Rightarrow> config \<times> msg list \<Rightarrow> config \<times> msg list" where
  "parseArguments_loop argv i (config, err) =
     (if i < length argv then
        (if argv ! i = ''-h'' \<or> argv ! i = ''--help'' then
           parseArguments_loop argv (i + 1) (config\<lparr>showHelp := True\<rparr>, err)
         else if argv ! i = ''--version'' then
           parseArguments_loop argv (i + 1) (config\<lparr>showVersion := True\<rparr>, err)
         else if argv ! i = ''-v'' \<or> argv ! i = ''--verbose'' then
           parseArguments_loop argv (i + 1) (config\<lparr>verbose := True\<rparr>, err)
         else if argv ! i = ''-n'' \<or> argv ! i = ''--dry-run'' then
           parseArguments_loop argv (i + 1) (config\<lparr>dryRun := True\<rparr>, err)
         else if argv ! i = ''-r'' \<or> argv ! i = ''--recursive'' then
           parseArguments_loop argv (i + 1) (config\<lparr>recursive := True\<rparr>, err)
         else if (argv ! i = ''-d'' \<or> argv ! i = ''--depth'') \<and> i + 1 < length argv then
           (case stoi (argv ! (i + 1)) of
              Inr n \<Rightarrow>
                (if n < 1
                 then parseArguments_loop argv (i + 2) (config\<lparr>depth := 1\<rparr>, err @ [WarnDepthTooSmall])
                 else parseArguments_loop argv (i + 2) (config\<lparr>depth := n\<rparr>, err))
            | Inl e \<Rightarrow> parseArguments_loop argv (i + 3) (config, err @ [WarnInvalidDepth]))
         else if (argv ! i = ''-p'' \<or> argv ! i = ''--prefix'') \<and> i + 1 < length argv then
           parseArguments_loop argv (i + 2) (config\<lparr>prefix := argv ! (i + 1)\<rparr>, err)
         else
           parseArguments_loop argv (i + 1) (config, err @ [UnknownOption (argv ! i)]))
      else (config, err))"
  by pat_completeness auto
termination
  by (relation "measure (\<lambda>(argv, i, s). length argv - i)") auto

declare parseArguments_loop.simps [simp del]

definition parseArguments :: "string list \<Rightarrow> config \<times> msg list" where
  "parseArguments argv = parseArguments_loop argv 1 (default_config, [])"

subsection \<open>The directory walker\<close>

text \<open>
  \<^verbatim>\<open>collectFiles\<close>: the accumulator is \<open>filesToMove\<close> with the lines printed so
  far. \<open>collectEntries\<close> is the range-for over the entries of one directory; a
  \<^verbatim>\<open>continue\<close> is the next entry with the accumulator as it is.
\<close>

type_synonym pending = "path \<times> string"

function collectFiles ::
    "world \<Rightarrow> config \<Rightarrow> string \<Rightarrow> path \<Rightarrow> int \<Rightarrow> int \<Rightarrow> pending list \<times> msg list
      \<Rightarrow> pending list \<times> msg list"
  and collectEntries ::
    "world \<Rightarrow> config \<Rightarrow> string \<Rightarrow> int \<Rightarrow> int \<Rightarrow> (path \<times> kind) list
      \<Rightarrow> pending list \<times> msg list \<Rightarrow> pending list \<times> msg list"
where
  "collectFiles w config programName dir currentDepth maxDepth acc =
     (if currentDepth > maxDepth then acc
      else
        (case directory_iterator w dir of
           Inl e \<Rightarrow> (fst acc, snd acc @ [ErrorAccessingDirectory dir])
         | Inr entries \<Rightarrow> collectEntries w config programName currentDepth maxDepth entries acc))"
| "collectEntries w config programName currentDepth maxDepth [] acc = acc"
| "collectEntries w config programName currentDepth maxDepth (entry # rest) acc =
     (if is_directory entry then
        (if shouldSkip (fst entry) then
           collectEntries w config programName currentDepth maxDepth rest
             (if verbose config then (fst acc, snd acc @ [SkippingPath (fst entry)]) else acc)
         else if recursive config \<and> currentDepth < maxDepth then
           collectEntries w config programName currentDepth maxDepth rest
             (collectFiles w config programName (fst entry) (currentDepth + 1) maxDepth acc)
         else
           collectEntries w config programName currentDepth maxDepth rest
             (if verbose config
              then (fst acc, snd acc @ [SkippingDirectory (path_filename (fst entry))])
              else acc))
      else if path_filename (fst entry) = programName \<or> path_filename (fst entry) = ''forg'' then
        collectEntries w config programName currentDepth maxDepth rest
          (if verbose config
           then (fst acc, snd acc @ [SkippingProgramFile (path_filename (fst entry))])
           else acc)
      else if shouldSkip (fst entry) then
        collectEntries w config programName currentDepth maxDepth rest
          (if verbose config
           then (fst acc, snd acc @ [SkippingFile (path_filename (fst entry))])
           else acc)
      else
        collectEntries w config programName currentDepth maxDepth rest
          (fst acc @ [(fst entry, getCategory (getFileExtension (path_filename (fst entry))))],
           snd acc))"
  by pat_completeness auto
termination
  by (relation "measures
        [\<lambda>x. case x of
                Inl (w, config, programName, dir, currentDepth, maxDepth, acc) \<Rightarrow>
                  nat (maxDepth + 1 - currentDepth)
              | Inr (w, config, programName, currentDepth, maxDepth, entries, acc) \<Rightarrow>
                  nat (maxDepth + 1 - currentDepth),
         \<lambda>x. case x of Inl _ \<Rightarrow> 1 | Inr _ \<Rightarrow> 0,
         \<lambda>x. case x of
                Inl _ \<Rightarrow> 0
              | Inr (w, config, programName, currentDepth, maxDepth, entries, acc) \<Rightarrow>
                  length entries]") auto

text \<open>
  The loop of \<^verbatim>\<open>organizeFiles\<close> over the top-level entries when the run is not
  recursive: the accumulator is \<open>filesToMove\<close>, \<open>skippedCount\<close> and the lines
  printed so far.
\<close>

fun collectTopLevel ::
    "config \<Rightarrow> string \<Rightarrow> (path \<times> kind) list \<Rightarrow> pending list \<times> int \<times> msg list
      \<Rightarrow> pending list \<times> int \<times> msg list" where
  "collectTopLevel config programName [] acc = acc"
| "collectTopLevel config programName (entry # rest) (files, skippedCount, out) =
     (if is_directory entry then
        collectTopLevel config programName rest
          (files, skippedCount,
           if verbose config then out @ [SkippingDirectory (path_filename (fst entry))] else out)
      else if path_filename (fst entry) = programName \<or> path_filename (fst entry) = ''forg'' then
        collectTopLevel config programName rest
          (files, skippedCount,
           if verbose config then out @ [SkippingProgramFile (path_filename (fst entry))] else out)
      else if shouldSkip (fst entry) then
        collectTopLevel config programName rest
          (files, skippedCount + 1,
           if verbose config then out @ [SkippingFile (path_filename (fst entry))] else out)
      else
        collectTopLevel config programName rest
          (files @ [(fst entry, getCategory (getFileExtension (path_filename (fst entry))))],
           skippedCount, out))"


subsection \<open>The mover\<close>

text \<open>
  \<^verbatim>\<open>movedCount[category]++\<close> on a \<^verbatim>\<open>std::map<std::string, int>\<close>: a missing
  key is inserted with 0 and then incremented.
\<close>

fun map_increment :: "string \<Rightarrow> (string \<times> int) list \<Rightarrow> (string \<times> int) list" where
  "map_increment k [] = [(k, 1)]"
| "map_increment k ((k', v) # rest) =
     (if k = k' then (k', v + 1) # rest
      else if string_less k k' then (k, 1) # (k', v) # rest
      else (k', v) # map_increment k rest)"

record mover_state =
  fs :: world
  movedCount :: "(string \<times> int) list"
  errorCount :: int
  printed :: "msg list"

text \<open>The folder of a category: \<^verbatim>\<open>currentDir / folderName\<close> (lines 434 and 435).\<close>

definition folderName :: "config \<Rightarrow> string \<Rightarrow> string" where
  "folderName config category = (if prefix config = [] then category else prefix config @ category)"

definition targetDir :: "config \<Rightarrow> path \<Rightarrow> string \<Rightarrow> path" where
  "targetDir config currentDir category = path_div currentDir (folderName config category)"

text \<open>
  How one iteration of the loop over \<open>filesToMove\<close> ends: at its end or at a
  \<^verbatim>\<open>continue\<close>, with the next iteration to follow, or with an exception that leaves
  the loop; each with the state reached.
\<close>

datatype iteration = Finished mover_state | Uncaught filesystem_error mover_state

text \<open>
  One iteration; \<open>now\<close> is the clock reading this iteration would use. The exceptions
  of \<^verbatim>\<open>fs::create_directories\<close> and \<^verbatim>\<open>fs::rename\<close> are caught and counted. The
  call of \<^verbatim>\<open>getUniquePath\<close> on line 449 is in neither \<^verbatim>\<open>try\<close> block: its
  exception leaves the loop. \<^term>\<open>None\<close> only if \<^verbatim>\<open>getUniquePath\<close> did not end.
\<close>

definition processFile :: "config \<Rightarrow> path \<Rightarrow> int \<Rightarrow> pending \<Rightarrow> mover_state \<Rightarrow> iteration option" where
  "processFile config currentDir now pm st =
     (case (if \<not> dryRun config
            then create_directories (fs st) (targetDir config currentDir (snd pm))
            else Inr (fs st)) of
        Inl (e, w1) \<Rightarrow>
          Some (Finished
            (st\<lparr>fs := w1, errorCount := errorCount st + 1,
                printed := printed st @ [ErrorCreatingDirectory (folderName config (snd pm))]\<rparr>))
      | Inr w1 \<Rightarrow>
          (case getUniquePath w1 now (targetDir config currentDir (snd pm))
                  (path_filename (fst pm)) of
             None \<Rightarrow> None
           | Some (Inl e) \<Rightarrow> Some (Uncaught e (st\<lparr>fs := w1\<rparr>))
           | Some (Inr targetPath) \<Rightarrow>
               (let out1 = printed st @
                      (if verbose config
                       then [MovingFromTo (path_filename (fst pm)) (fst pm) targetPath] else [])
                in if \<not> dryRun config then
                     (case rename w1 (fst pm) targetPath of
                        Inl e \<Rightarrow>
                          Some (Finished
                            (st\<lparr>fs := w1, errorCount := errorCount st + 1,
                                printed := out1 @ [ErrorMoving (path_filename (fst pm))]\<rparr>))
                      | Inr w2 \<Rightarrow>
                          Some (Finished
                            (st\<lparr>fs := w2,
                                movedCount := map_increment (snd pm) (movedCount st),
                                printed := out1 @ [MovedLine (path_filename (fst pm))
                                                 (folderName config (snd pm))]\<rparr>)))
                   else
                     Some (Finished
                       (st\<lparr>fs := w1,
                           movedCount := map_increment (snd pm) (movedCount st),
                           printed := out1 @ [DryRunLine (path_filename (fst pm))
                                            (folderName config (snd pm))]\<rparr>)))))"

text \<open>
  The loop over \<open>filesToMove\<close>; \<open>clock k\<close> is the clock reading during the
  \<open>k\<close>-th iteration.
\<close>

fun processFiles ::
    "config \<Rightarrow> path \<Rightarrow> (nat \<Rightarrow> int) \<Rightarrow> nat \<Rightarrow> pending list \<Rightarrow> mover_state \<Rightarrow> iteration option" where
  "processFiles config currentDir clock k [] st = Some (Finished st)"
| "processFiles config currentDir clock k (pm # rest) st =
     (case processFile config currentDir (clock k) pm st of
        None \<Rightarrow> None
      | Some (Uncaught e st') \<Rightarrow> Some (Uncaught e st')
      | Some (Finished st') \<Rightarrow> processFiles config currentDir clock (k + 1) rest st')"

subsection \<open>The whole run\<close>

text \<open>
  How the process ends: \<^verbatim>\<open>main\<close> returns a status, or an exception that nothing
  catches ends it through \<^verbatim>\<open>std::terminate\<close>.
\<close>

datatype status = Returned int | Terminated

record run_result =
  exit_status :: status
  final_fs :: world
  stdout :: "msg list"
  stderr :: "msg list"

definition banner :: "config \<Rightarrow> path \<Rightarrow> msg list" where
  "banner config currentDir =
     [OrganizingIn currentDir]
     @ (if recursive config then [RecursiveModeEnabled (depth config)] else [])
     @ (if prefix config \<noteq> [] then [UsingPrefix (prefix config)] else [])
     @ (if dryRun config then [DryRunMode] else [])"

definition summary :: "(string \<times> int) list \<Rightarrow> nat \<Rightarrow> int \<Rightarrow> int \<Rightarrow> msg list" where
  "summary moved nfiles skippedCount errors =
     [OrganizationComplete]
     @ map (\<lambda>(category, count). CategoryCount category count) moved
     @ [TotalLine nfiles]
     @ (if skippedCount > 0 then [SkippedCount skippedCount] else [])
     @ (if errors > 0 then [ErrorsCount errors] else [])"

text \<open>
  The first phase of \<^verbatim>\<open>organizeFiles\<close>: \<open>filesToMove\<close>, \<open>skippedCount\<close> and
  the lines printed, or the exception of the top-level iteration, which the
  non-recursive branch does not catch.
\<close>

definition collect ::
    "config \<Rightarrow> string \<Rightarrow> world \<Rightarrow> filesystem_error + pending list \<times> int \<times> msg list" where
  "collect config programName w =
     (if recursive config then
        (case collectFiles w config programName (current_path w) 1 (depth config)
                ([], banner config (current_path w)) of
           (files, out) \<Rightarrow> Inr (files, 0, out))
      else
        (case directory_iterator w (current_path w) of
           Inl e \<Rightarrow> Inl e
         | Inr entries \<Rightarrow>
             Inr (collectTopLevel config programName entries
                    ([], 0, banner config (current_path w)))))"

text \<open>
  The state in which the loop over \<open>filesToMove\<close> starts: no file moved, no error
  counted (lines 361 to 363), and the lines printed by the first phase.
\<close>

definition start :: "world \<Rightarrow> msg list \<Rightarrow> mover_state" where
  "start w out0 = \<lparr>fs = w, movedCount = [], errorCount = 0, printed = out0\<rparr>"

definition organizeFiles :: "config \<Rightarrow> string \<Rightarrow> world \<Rightarrow> (nat \<Rightarrow> int) \<Rightarrow> run_result option" where
  "organizeFiles config programName w clock =
     (case collect config programName w of
        Inl e \<Rightarrow>
          Some \<lparr>exit_status = Terminated, final_fs = w,
                stdout = banner config (current_path w), stderr = []\<rparr>
      | Inr (filesToMove, skippedCount, out0) \<Rightarrow>
          (if filesToMove = [] then
             Some \<lparr>exit_status = Returned 0, final_fs = w,
                   stdout = out0 @ [NoFilesToOrganize], stderr = []\<rparr>
           else
             (case processFiles config (current_path w) clock 0 filesToMove (start w out0) of
                None \<Rightarrow> None
              | Some (Uncaught e st) \<Rightarrow>
                  Some \<lparr>exit_status = Terminated, final_fs = fs st,
                        stdout = printed st, stderr = []\<rparr>
              | Some (Finished st) \<Rightarrow>
                  Some \<lparr>exit_status = Returned (if errorCount st > 0 then 1 else 0),
                        final_fs = fs st,
                        stdout = printed st @ summary (movedCount st) (length filesToMove)
                                   skippedCount (errorCount st),
                        stderr = []\<rparr>)))"

text \<open>
  \<^verbatim>\<open>fs::path(argv[0]).filename().string()\<close>: what follows the last separator
  of the program's path.
\<close>

definition program_filename :: "string \<Rightarrow> string" where
  "program_filename argv0 =
     (case rfind argv0 (CHR ''/'') of
        None \<Rightarrow> argv0
      | Some i \<Rightarrow> substr_from argv0 (i + 1))"

text \<open>
  \<^verbatim>\<open>main\<close>, on \<open>argv\<close> (never empty: its head is the program's path), the file
  system and the clock.
\<close>

definition main :: "string \<Rightarrow> string list \<Rightarrow> world \<Rightarrow> (nat \<Rightarrow> int) \<Rightarrow> run_result option" where
  "main argv0 args w clock =
     (case parseArguments (argv0 # args) of
        (config, err) \<Rightarrow>
          (if showHelp config then
             Some \<lparr>exit_status = Returned 0, final_fs = w, stdout = [HelpText], stderr = err\<rparr>
           else if showVersion config then
             Some \<lparr>exit_status = Returned 0, final_fs = w, stdout = [VersionText], stderr = err\<rparr>
           else
             (case organizeFiles config (program_filename argv0) w clock of
                None \<Rightarrow> None
              | Some r \<Rightarrow> Some (r\<lparr>stderr := err\<rparr>))))"

subsection \<open>Example states\<close>

text \<open>
  A destination folder in which \<open>a.txt\<close> and \<open>a_1.txt\<close> to \<open>a_1000.txt\<close> all
  exist.
\<close>

definition crowded :: world where
  "crowded =
     \<lparr>cwd = [''home''],
      nodes = ([''home'', ''Documents''], Directory)
              # ([''home'', ''Documents'', ''a.txt''], RegularFile)
              # map (\<lambda>i. ([''home'', ''Documents'', newName ''a'' (int i) ''.txt''], RegularFile))
                    [1..<1001],
      denied = [], locked = [], readonly = []\<rparr>"

text \<open>A destination folder in which \<open>a.txt\<close> and \<open>a_1.txt\<close> exist.\<close>

definition collided :: world where
  "collided =
     \<lparr>cwd = [''home''],
      nodes = [([''home'', ''Documents''], Directory),
               ([''home'', ''Documents'', ''a.txt''], RegularFile),
               ([''home'', ''Documents'', ''a_1.txt''], RegularFile)],
      denied = [], locked = [], readonly = []\<rparr>"

text \<open>
  A directory with a file, a hidden file, a subdirectory that holds a file, a hidden file
  and a deeper directory, a build directory, and a directory that cannot be read.
\<close>

definition sample :: world where
  "sample =
     \<lparr>cwd = [''home''],
      nodes = [([''home'', ''a.txt''], RegularFile),
               ([''home'', ''.hidden''], RegularFile),
               ([''home'', ''sub''], Directory),
               ([''home'', ''sub'', ''b.JPG''], RegularFile),
               ([''home'', ''sub'', ''.secret''], RegularFile),
               ([''home'', ''sub'', ''deep''], Directory),
               ([''home'', ''sub'', ''deep'', ''c.zip''], RegularFile),
               ([''home'', ''build''], Directory),
               ([''home'', ''build'', ''x.o''], RegularFile),
               ([''home'', ''locked''], Directory),
               ([''home'', ''locked'', ''y.md''], RegularFile)],
      denied = [[''home'', ''locked'']], locked = [], readonly = []\<rparr>"

text \<open>
  The state \<open>sample\<close> after a recursive run with depth 2: \<open>a.txt\<close> and
  \<open>sub/b.JPG\<close> are in their category folders, everything else is where it was.
\<close>

definition sample_organized :: world where
  "sample_organized =
     \<lparr>cwd = [''home''],
      nodes = [([''home'', ''.hidden''], RegularFile),
               ([''home'', ''sub''], Directory),
               ([''home'', ''sub'', ''.secret''], RegularFile),
               ([''home'', ''sub'', ''deep''], Directory),
               ([''home'', ''sub'', ''deep'', ''c.zip''], RegularFile),
               ([''home'', ''build''], Directory),
               ([''home'', ''build'', ''x.o''], RegularFile),
               ([''home'', ''locked''], Directory),
               ([''home'', ''locked'', ''y.md''], RegularFile),
               ([''home'', ''Documents''], Directory),
               ([''home'', ''Documents'', ''a.txt''], RegularFile),
               ([''home'', ''Images''], Directory),
               ([''home'', ''Images'', ''b.JPG''], RegularFile)],
      denied = [[''home'', ''locked'']], locked = [], readonly = []\<rparr>"

text \<open>
  A working directory two levels below the root, with a file and a subdirectory that
  holds a file.
\<close>

definition desk :: world where
  "desk =
     \<lparr>cwd = [''home'', ''user''],
      nodes = [([''home'', ''user'', ''a.txt''], RegularFile),
               ([''home'', ''user'', ''sub''], Directory),
               ([''home'', ''user'', ''sub'', ''b.JPG''], RegularFile)],
      denied = [], locked = [], readonly = []\<rparr>"

text \<open>
  The same with a folder \<open>Documents\<close> that holds \<open>old.txt\<close>: once as a folder that
  cannot be searched, once as a folder that cannot be written.
\<close>

definition vault :: world where
  "vault =
     \<lparr>cwd = [''home'', ''user''],
      nodes = [([''home'', ''user'', ''a.txt''], RegularFile),
               ([''home'', ''user'', ''Documents''], Directory),
               ([''home'', ''user'', ''Documents'', ''old.txt''], RegularFile)],
      denied = [], locked = [[''home'', ''user'', ''Documents'']], readonly = []\<rparr>"

definition archive :: world where
  "archive =
     \<lparr>cwd = [''home'', ''user''],
      nodes = [([''home'', ''user'', ''a.txt''], RegularFile),
               ([''home'', ''user'', ''Documents''], Directory),
               ([''home'', ''user'', ''Documents'', ''old.txt''], RegularFile)],
      denied = [], locked = [], readonly = [[''home'', ''user'', ''Documents'']]\<rparr>"

subsection \<open>Vocabulary of the properties\<close>

text \<open>The lines that report an error of the mover: each comes with \<^verbatim>\<open>errorCount++\<close>.\<close>

fun mover_error :: "msg \<Rightarrow> bool" where
  "mover_error (ErrorCreatingDirectory folder) = True"
| "mover_error (ErrorMoving filename) = True"
| "mover_error m = False"

text \<open>
  The mover fails on a pending move in a state: the run is no dry run and the folder
  cannot be created, or the file cannot be renamed to the name chosen for it.
\<close>

definition mover_fails :: "config \<Rightarrow> path \<Rightarrow> int \<Rightarrow> pending \<Rightarrow> mover_state \<Rightarrow> bool" where
  "mover_fails config currentDir now pm st =
     (\<not> dryRun config
      \<and> (case create_directories (fs st) (targetDir config currentDir (snd pm)) of
           Inl failure \<Rightarrow> True
         | Inr w1 \<Rightarrow>
             (case getUniquePath w1 now (targetDir config currentDir (snd pm))
                     (path_filename (fst pm)) of
                Some (Inr targetPath) \<Rightarrow>
                  (case rename w1 (fst pm) targetPath of Inl e \<Rightarrow> True | Inr w2 \<Rightarrow> False)
              | Some (Inl e) \<Rightarrow> False
              | None \<Rightarrow> False)))"

text \<open>
  A name of one directory entry: not empty, not \<open>.\<close> or \<open>..\<close>, and without a
  separator. In a state with \<open>plain_names\<close> every entry has such a name, as it has
  in every real file system.
\<close>

definition plain_name :: "string \<Rightarrow> bool" where
  "plain_name name = (name \<noteq> [] \<and> name \<noteq> ''.'' \<and> name \<noteq> ''..'' \<and> CHR ''/'' \<notin> set name)"

definition plain_names :: "world \<Rightarrow> bool" where
  "plain_names w = list_all (\<lambda>e. plain_name (path_filename (fst e))) (nodes w)"

text \<open>
  Arguments that the parser reads as whole options: each \<^verbatim>\<open>-d\<close> or \<^verbatim>\<open>--depth\<close>
  is followed by a value that \<^verbatim>\<open>std::stoi\<close> accepts, and each \<^verbatim>\<open>-p\<close> or
  \<^verbatim>\<open>--prefix\<close> by its value, so that the argument after them is read as an option.
\<close>

fun whole_options :: "string list \<Rightarrow> bool" where
  "whole_options [] = True"
| "whole_options [a] = (a \<noteq> ''-d'' \<and> a \<noteq> ''--depth'' \<and> a \<noteq> ''-p'' \<and> a \<noteq> ''--prefix'')"
| "whole_options (a # v # rest) =
     (if a = ''-d'' \<or> a = ''--depth'' then
        (case stoi v of Inr n \<Rightarrow> whole_options rest | Inl e \<Rightarrow> False)
      else if a = ''-p'' \<or> a = ''--prefix'' then whole_options rest
      else whole_options (v # rest))"


text \<open>A name that \<^verbatim>\<open>shouldSkip\<close> rejects.\<close>

definition skipped_name :: "string \<Rightarrow> bool" where
  "skipped_name name = (starts_with_dot name \<or> name \<in> set SKIP_PATTERNS)"

text \<open>
  What a pending move found below \<open>dir\<close> within \<open>k\<close> levels looks like: a
  non-directory entry reached through names that are not skipped, not named like the
  program, with the category of its name.
\<close>

definition found_under :: "world \<Rightarrow> string \<Rightarrow> path \<Rightarrow> int \<Rightarrow> pending \<Rightarrow> bool" where
  "found_under w programName dir k pm =
     (\<exists>rel. fst pm = dir @ rel \<and> rel \<noteq> [] \<and> int (length rel) \<le> k
        \<and> (\<forall>n \<in> set rel. \<not> skipped_name n)
        \<and> path_filename (fst pm) \<noteq> programName \<and> path_filename (fst pm) \<noteq> ''forg''
        \<and> (fst pm, RegularFile) \<in> set (nodes w)
        \<and> snd pm = classify (path_filename (fst pm)))"

text \<open>
  The directories \<open>ds\<close>, one inside the other below \<open>dir\<close>, can all be entered:
  each exists as a directory with a name that is not skipped, and each of them, and
  \<open>dir\<close> itself, can be read.
\<close>

fun open_dirs :: "world \<Rightarrow> path \<Rightarrow> string list \<Rightarrow> bool" where
  "open_dirs w dir [] = (dir \<notin> set (denied w))"
| "open_dirs w dir (d # ds) =
     (dir \<notin> set (denied w) \<and> (dir @ [d], Directory) \<in> set (nodes w) \<and> \<not> skipped_name d
      \<and> open_dirs w (dir @ [d]) ds)"

section \<open>Properties\<close>

subsection \<open>Strings and the classifier\<close>

lemma rfind_None_iff: "rfind s c = None \<longleftrightarrow> c \<notin> set s"
  by (induction s) (auto split: option.splits)

lemma rfind_append_last: "c \<notin> set b \<Longrightarrow> rfind (a @ c # b) c = Some (length a)"
proof (induction a)
  case Nil
  then have "rfind b c = None" by (simp add: rfind_None_iff)
  then show ?case by simp
next
  case (Cons x a)
  then show ?case by simp
qed

lemma rfind_Some_split:
  "rfind s c = Some i \<Longrightarrow> i < length s \<and> s ! i = c \<and> c \<notin> set (drop (Suc i) s)"
proof (induction s arbitrary: i)
  case Nil
  then show ?case by simp
next
  case (Cons x xs)
  show ?case
  proof (cases "rfind xs c")
    case None
    with Cons.prems have "x = c" "i = 0" by (auto split: if_splits)
    with None show ?thesis by (simp add: rfind_None_iff)
  next
    case (Some j)
    with Cons.prems have "i = Suc j" by simp
    with Cons.IH[OF Some] show ?thesis by simp
  qed
qed

lemma getFileExtension_no_dot: "CHR ''.'' \<notin> set f \<Longrightarrow> getFileExtension f = ''''"
  by (simp add: getFileExtension_def rfind_None_iff[THEN iffD2])

lemma getFileExtension_split:
  assumes "CHR ''.'' \<notin> set b"
  shows "getFileExtension (a @ CHR ''.'' # b) = toLowerCase b"
proof -
  have "rfind (a @ CHR ''.'' # b) (CHR ''.'') = Some (length a)"
    using assms by (rule rfind_append_last)
  then show ?thesis
    by (cases b) (simp_all add: getFileExtension_def substr_from_def toLowerCase_def)
qed

lemma of_char_less_256: "(of_char c :: nat) < 256"
  by (metis of_char_mod_256 mod_less_divisor zero_less_numeral)

lemma of_char_minus_less: "(of_char c :: nat) - 32 < 256"
  using of_char_less_256[of c] by linarith

lemma tolower_toupper: "tolower (toupper c) = tolower c"
proof (cases "97 \<le> (of_char c :: nat) \<and> (of_char c :: nat) \<le> 122")
  case True
  have up: "(of_char (char_of ((of_char c :: nat) - 32)) :: nat) = of_char c - 32"
    using of_char_minus_less[of c] by simp
  have bounds: "65 \<le> (of_char c :: nat) - 32" "(of_char c :: nat) - 32 \<le> 90"
    using True by linarith+
  have restore: "(of_char c :: nat) - 32 + 32 = of_char c"
    using True by linarith
  have "tolower (toupper c) = char_of ((of_char c :: nat) - 32 + 32)"
    using True up bounds by (simp add: tolower_def toupper_def)
  also have "\<dots> = c"
    by (simp only: restore char_of_char)
  also have "c = tolower c"
    using True by (simp add: tolower_def)
  finally show ?thesis .
next
  case False
  then show ?thesis by (auto simp: toupper_def)
qed

lemma toupper_dot: "toupper c = CHR ''.'' \<longleftrightarrow> c = CHR ''.''"
proof (cases "97 \<le> (of_char c :: nat) \<and> (of_char c :: nat) \<le> 122")
  case True
  have up: "(of_char (char_of ((of_char c :: nat) - 32)) :: nat) = of_char c - 32"
    using of_char_minus_less[of c] by simp
  have "(of_char c :: nat) - 32 \<noteq> 46" "(of_char c :: nat) \<noteq> 46"
    using True by linarith+
  with True up have "(of_char (toupper c) :: nat) \<noteq> of_char (CHR ''.'')"
    "(of_char c :: nat) \<noteq> of_char (CHR ''.'')"
    by (simp_all add: toupper_def)
  then show ?thesis by auto
next
  case False
  then show ?thesis by (auto simp: toupper_def)
qed

lemma rfind_map_toupper: "rfind (map toupper s) (CHR ''.'') = rfind s (CHR ''.'')"
  by (induction s) (simp_all add: toupper_dot)

lemma getFileExtension_toupper: "getFileExtension (map toupper f) = getFileExtension f"
  by (simp add: getFileExtension_def rfind_map_toupper substr_from_def toLowerCase_def
      drop_map tolower_toupper split: option.splits)

lemma getCategory_loop_none:
  "(\<And>c es. (c, es) \<in> set table \<Longrightarrow> e \<notin> set es) \<Longrightarrow> getCategory_loop table e = ''Others''"
  by (induction table e rule: getCategory_loop.induct) auto

lemma toLowerCase_toupper: "toLowerCase (map toupper b) = toLowerCase b"
  by (simp add: toLowerCase_def tolower_toupper)

lemma toupper_no_dot: "CHR ''.'' \<notin> set b \<Longrightarrow> CHR ''.'' \<notin> set (map toupper b)"
  by (induction b) (auto simp: toupper_dot eq_commute [of "CHR ''.''"])

lemma getCategory_loop_unique:
  "distinct (concat (map snd table)) \<Longrightarrow> (c, es) \<in> set table \<Longrightarrow> e \<in> set es
    \<Longrightarrow> getCategory_loop table e = c"
proof (induction table e rule: getCategory_loop.induct)
  case (1 extension)
  then show ?case by simp
next
  case (2 category extensions rest extension)
  show ?case
  proof (cases "extension \<in> set extensions")
    case True
    have "(c, es) \<notin> set rest"
    proof
      assume "(c, es) \<in> set rest"
      with "2.prems"(3) have "extension \<in> set (concat (map snd rest))" by force
      with True "2.prems"(1) show False by auto
    qed
    with "2.prems"(2) have "c = category" by simp
    with True show ?thesis by simp
  next
    case False
    with "2.prems" have "(c, es) \<in> set rest" by auto
    with False "2.IH" "2.prems" show ?thesis by simp
  qed
qed

lemma FILE_CATEGORIES_distinct: "distinct (concat (map snd FILE_CATEGORIES))"
  by code_simp

lemma FILE_CATEGORIES_nonempty: "[] \<notin> set (concat (map snd FILE_CATEGORIES))"
  by code_simp

lemma getCategory_member:
  assumes "(c, es) \<in> set FILE_CATEGORIES" and "e \<in> set es"
  shows "getCategory e = c"
proof -
  from assms have "e \<in> set (concat (map snd FILE_CATEGORIES))" by force
  with FILE_CATEGORIES_nonempty have "e \<noteq> []" by metis
  with assms show ?thesis
    by (simp add: getCategory_def getCategory_in_def getCategory_loop_unique [OF FILE_CATEGORIES_distinct])
qed

lemma getCategory_no_match:
  "(\<And>c es. (c, es) \<in> set FILE_CATEGORIES \<Longrightarrow> e \<notin> set es) \<Longrightarrow> getCategory e = ''Others''"
  by (simp add: getCategory_def getCategory_in_def getCategory_loop_none)

lemma classify_f: "classify ''f'' = ''Others''"
  by (simp add: classify_def getFileExtension_def getCategory_def getCategory_in_def)

lemma classify_f_dot: "classify ''f.'' = ''Others''"
  by (simp add: classify_def getFileExtension_def getCategory_def getCategory_in_def)

text \<open>
  C2. For every file name, the extension is what follows the last dot, case-folded; it
  is empty when there is no dot or the dot is the last character. \<open>classify\<close> returns
  the category whose extension list holds the extension, and \<open>Others\<close> when the
  extension is empty or in no list; so \<open>f\<close>, \<open>f.\<close> and every unrecognized extension
  give \<open>Others\<close>, and upper-casing a file name or its extension does not change the
  category.
\<close>

theorem classify_by_extension:
  "(CHR ''.'' \<notin> set f \<longrightarrow> getFileExtension f = '''')
   \<and> getFileExtension (a @ ''.'') = ''''
   \<and> (CHR ''.'' \<notin> set b \<longrightarrow> getFileExtension (a @ ''.'' @ b) = toLowerCase b)
   \<and> ((c, es) \<in> set FILE_CATEGORIES \<and> getFileExtension f \<in> set es \<longrightarrow> classify f = c)
   \<and> (getFileExtension f = '''' \<longrightarrow> classify f = ''Others'')
   \<and> ((\<forall>c es. (c, es) \<in> set FILE_CATEGORIES \<longrightarrow> getFileExtension f \<notin> set es)
        \<longrightarrow> classify f = ''Others'')
   \<and> classify ''f'' = ''Others'' \<and> classify ''f.'' = ''Others''
   \<and> (CHR ''.'' \<notin> set b \<longrightarrow> classify (a @ ''.'' @ map toupper b) = classify (a @ ''.'' @ b))
   \<and> classify (map toupper f) = classify f"
proof -
  have dot_last: "getFileExtension (a @ ''.'') = ''''"
    using getFileExtension_split [of "[]" a] by (simp add: toLowerCase_def)
  have split: "CHR ''.'' \<notin> set b \<Longrightarrow> getFileExtension (a @ ''.'' @ b) = toLowerCase b"
    using getFileExtension_split [of b a] by simp
  have upper_ext: "classify (a @ ''.'' @ map toupper b) = classify (a @ ''.'' @ b)"
    if "CHR ''.'' \<notin> set b"
  proof -
    have "getFileExtension (a @ CHR ''.'' # map toupper b) = toLowerCase (map toupper b)"
      using that by (intro getFileExtension_split toupper_no_dot)
    moreover have "getFileExtension (a @ CHR ''.'' # b) = toLowerCase b"
      using that by (rule getFileExtension_split)
    ultimately show ?thesis
      by (simp add: classify_def toLowerCase_toupper)
  qed
  have empty: "getFileExtension f = '''' \<Longrightarrow> classify f = ''Others''"
    by (simp add: classify_def getCategory_def getCategory_in_def)
  have member: "(c, es) \<in> set FILE_CATEGORIES \<and> getFileExtension f \<in> set es \<longrightarrow> classify f = c"
    by (auto simp: classify_def intro: getCategory_member)
  have no_match: "(\<forall>c es. (c, es) \<in> set FILE_CATEGORIES \<longrightarrow> getFileExtension f \<notin> set es)
        \<longrightarrow> classify f = ''Others''"
    by (simp add: classify_def getCategory_no_match)
  have upper_all: "classify (map toupper f) = classify f"
    by (simp add: classify_def getFileExtension_toupper)
  show ?thesis
    using dot_last split upper_ext empty member no_match upper_all
      getFileExtension_no_dot [of f] classify_f classify_f_dot
    by blast
qed

theorem classify_by_extension_witness:
  "getFileExtension ''README'' = '''' \<and> classify ''README'' = ''Others''
   \<and> getFileExtension ''photo.JPG'' = ''jpg'' \<and> classify ''photo.JPG'' = ''Images''
   \<and> classify ''photo.JPG'' = classify ''photo.jpg''
   \<and> classify ''unknown.xyz'' = ''Others''"
proof -
  have no_dot: "CHR ''.'' \<notin> set ''README''" "CHR ''.'' \<notin> set ''JPG''" "CHR ''.'' \<notin> set ''jpg''"
    "CHR ''.'' \<notin> set ''xyz''"
    by simp_all
  have lower: "toLowerCase ''JPG'' = ''jpg''" "toLowerCase ''xyz'' = ''xyz''"
    by code_simp+
  have upper: "toupper (CHR ''j'') = CHR ''J''" "toupper (CHR ''p'') = CHR ''P''"
    "toupper (CHR ''g'') = CHR ''G''"
    by code_simp+
  have images: "(''Images'', [''jpg'', ''jpeg'', ''png'', ''gif'', ''bmp'', ''tiff'', ''svg'',
      ''webp'', ''ico'', ''psd'', ''ai'', ''eps'']) \<in> set FILE_CATEGORIES"
    by code_simp
  have xyz: "\<forall>c es. (c, es) \<in> set FILE_CATEGORIES \<longrightarrow> ''xyz'' \<notin> set es"
  proof -
    have "''xyz'' \<notin> set (concat (map snd FILE_CATEGORIES))" by code_simp
    then show ?thesis by force
  qed
  note t1 = classify_by_extension [where f = "''README''" and a = "''photo''" and b = "''JPG''"]
  note t2 = classify_by_extension [where f = "''photo.JPG''" and a = "''photo''" and b = "''jpg''"
      and c = "''Images''"
      and es = "[''jpg'', ''jpeg'', ''png'', ''gif'', ''bmp'', ''tiff'', ''svg'',
      ''webp'', ''ico'', ''psd'', ''ai'', ''eps'']"]
  note t3 = classify_by_extension [where f = "''unknown.xyz''" and a = "''unknown''" and b = "''xyz''"]
  have r1: "getFileExtension ''README'' = ''''"
    using t1 no_dot(1) by blast
  have r2: "classify ''README'' = ''Others''"
    using t1 r1 by blast
  have "getFileExtension (''photo'' @ ''.'' @ ''JPG'') = toLowerCase ''JPG''"
    using t1 no_dot(2) by blast
  then have p1: "getFileExtension ''photo.JPG'' = ''jpg''"
    by (simp add: lower)
  then have "getFileExtension ''photo.JPG'' \<in> set [''jpg'', ''jpeg'', ''png'', ''gif'', ''bmp'',
      ''tiff'', ''svg'', ''webp'', ''ico'', ''psd'', ''ai'', ''eps'']"
    by simp
  with t2 images have p2: "classify ''photo.JPG'' = ''Images''"
    by blast
  have "classify (''photo'' @ ''.'' @ map toupper ''jpg'') = classify (''photo'' @ ''.'' @ ''jpg'')"
    using t2 no_dot(3) by blast
  then have p3: "classify ''photo.JPG'' = classify ''photo.jpg''"
    by (simp add: upper)
  have "getFileExtension (''unknown'' @ ''.'' @ ''xyz'') = toLowerCase ''xyz''"
    using t3 no_dot(4) by blast
  then have "getFileExtension ''unknown.xyz'' = ''xyz''"
    by (simp add: lower)
  with xyz have "\<forall>c es. (c, es) \<in> set FILE_CATEGORIES \<longrightarrow> getFileExtension ''unknown.xyz'' \<notin> set es"
    by simp
  with t3 have u: "classify ''unknown.xyz'' = ''Others''"
    by blast
  from r1 r2 p1 p2 p3 u show ?thesis by blast
qed

subsection \<open>The category table as a map\<close>

lemma string_less_irrefl: "\<not> string_less s s"
  by (induction s) auto

lemma string_less_trans: "string_less a b \<Longrightarrow> string_less b c \<Longrightarrow> string_less a c"
proof (induction a b arbitrary: c rule: string_less.induct)
  case 1
  then show ?case by simp
next
  case (2 y ys)
  then show ?case by (cases c) auto
next
  case (3 x xs)
  then show ?case by simp
next
  case (4 x xs y ys)
  then show ?case by (cases c) (auto dest: less_trans)
qed

lemma string_less_total: "a \<noteq> b \<Longrightarrow> \<not> string_less a b \<Longrightarrow> string_less b a"
proof (induction a b rule: string_less.induct)
  case 1
  then show ?case by simp
next
  case (2 y ys)
  then show ?case by simp
next
  case (3 x xs)
  then show ?case by simp
next
  case (4 x xs y ys)
  show ?case
  proof (cases "x = y")
    case True
    with "4.prems" have "xs \<noteq> ys" "\<not> string_less xs ys" by simp_all
    with True "4.IH" show ?thesis by simp
  next
    case False
    then have "(of_char x :: nat) \<noteq> of_char y" by simp
    moreover from "4.prems"(2) have "\<not> (of_char x :: nat) < of_char y" by simp
    ultimately have "(of_char y :: nat) < of_char x" by linarith
    then show ?thesis by simp
  qed
qed


lemma keys_map_insert: "fst ` set (map_insert k v m) = insert k (fst ` set m)"
proof (induction m)
  case Nil
  then show ?case by simp
next
  case (Cons e m)
  obtain k' v' where e: "e = (k', v')" by (cases e)
  show ?case
  proof (cases "k = k'")
    case True
    with e show ?thesis by simp
  next
    case neq: False
    show ?thesis
    proof (cases "string_less k k'")
      case True
      with e neq show ?thesis by simp
    next
      case False
      with e neq Cons.IH show ?thesis by (simp add: insert_commute)
    qed
  qed
qed

lemma sorted_map_insert:
  "sorted_wrt string_less (map fst m) \<Longrightarrow> sorted_wrt string_less (map fst (map_insert k v m))"
proof (induction m)
  case Nil
  then show ?case by simp
next
  case (Cons e m)
  obtain k' v' where e: "e = (k', v')" by (cases e)
  show ?case
  proof (cases "k = k'")
    case True
    with Cons.prems e show ?thesis by simp
  next
    case neq: False
    show ?thesis
    proof (cases "string_less k k'")
      case True
      with Cons.prems e neq show ?thesis
        by (auto intro: string_less_trans)
    next
      case False
      with neq have less: "string_less k' k" by (simp add: string_less_total)
      have keys: "\<forall>x \<in> fst ` set (map_insert k v m). string_less k' x"
        using Cons.prems e less by (auto simp: keys_map_insert)
      from Cons have "sorted_wrt string_less (map fst (map_insert k v m))" by simp
      with keys e neq False show ?thesis by auto
    qed
  qed
qed

lemma sorted_foldl_insert:
  "sorted_wrt string_less (map fst m)
    \<Longrightarrow> sorted_wrt string_less (map fst (foldl (\<lambda>m (k, v). map_insert k v m) m init))"
  by (induction init arbitrary: m) (auto simp: sorted_map_insert)

lemma sorted_std_map: "sorted_wrt string_less (map fst (std_map init))"
  by (simp add: std_map_def sorted_foldl_insert)



lemma getCategory_loop_first:
  "table = before @ (c, es) # rest \<Longrightarrow> ext \<in> set es
    \<Longrightarrow> (\<And>c' es'. (c', es') \<in> set before \<Longrightarrow> ext \<notin> set es')
    \<Longrightarrow> getCategory_loop table ext = c"
proof (induction before arbitrary: table)
  case Nil
  then show ?case by simp
next
  case (Cons e before)
  obtain c' es' where e: "e = (c', es')" by (cases e)
  with Cons.prems(3) have "ext \<notin> set es'" by auto
  moreover have "getCategory_loop (before @ (c, es) # rest) ext = c"
    using Cons.prems by (intro Cons.IH) auto
  ultimately show ?case using Cons.prems(1) e by simp
qed





subsection \<open>Paths\<close>

lemma split_fold_plain:
  "CHR ''/'' \<notin> set s
    \<Longrightarrow> foldr (\<lambda>c names. if c = CHR ''/'' then [] # names else (c # hd names) # tl names) s [[]]
          = [s]"
  by (induction s) auto

lemma split_path_plain: "CHR ''/'' \<notin> set s \<Longrightarrow> s \<noteq> [] \<Longrightarrow> split_path s = [s]"
  by (simp add: split_path_def split_fold_plain)

lemma path_div_plain: "plain_name s \<Longrightarrow> path_div p s = p @ [s]"
proof -
  assume s: "plain_name s"
  then have "hd s \<noteq> CHR ''/''"
    by (cases s) (auto simp: plain_name_def)
  with s show ?thesis
    by (simp add: path_div_def plain_name_def split_path_plain enter_def)
qed

lemma char_of_digit_not_separator: "d < 10 \<Longrightarrow> char_of (48 + d :: nat) \<noteq> CHR ''/''"
proof
  assume d: "d < 10" and eq: "char_of (48 + d) = CHR ''/''"
  from eq have "(of_char (char_of (48 + d)) :: nat) = of_char (CHR ''/'')" by simp
  with d show False by simp
qed

lemma digits_of_no_separator: "CHR ''/'' \<notin> set (digits_of n)"
proof (induction n rule: digits_of.induct)
  case (1 n)
  show ?case
  proof (cases "n < 10")
    case True
    then have "digits_of n = [char_of (48 + n)]"
      by (subst digits_of.simps) simp
    with True char_of_digit_not_separator [of n] show ?thesis by simp
  next
    case False
    then have "digits_of n = digits_of (n div 10) @ [char_of (48 + n mod 10)]"
      by (subst digits_of.simps) simp
    moreover have "char_of (48 + n mod 10) \<noteq> CHR ''/''"
      by (rule char_of_digit_not_separator) simp
    ultimately show ?thesis using False "1.IH" by simp
  qed
qed

lemma to_string_no_separator: "CHR ''/'' \<notin> set (to_string i)"
  by (simp add: to_string_def digits_of_no_separator)

lemma split_name_parts:
  "set (fst (split_name f)) \<subseteq> set f" "set (snd (split_name f)) \<subseteq> set f"
  by (auto simp: split_name_def substr_to_def substr_from_def
      dest: in_set_takeD in_set_dropD split: option.splits)

lemma newName_plain:
  assumes "CHR ''/'' \<notin> set f"
  shows "plain_name (newName (fst (split_name f)) i (snd (split_name f)))"
proof -
  let ?n = "newName (fst (split_name f)) i (snd (split_name f))"
  have "CHR ''_'' \<in> set ?n" by (simp add: newName_def)
  then have "?n \<noteq> []" "?n \<noteq> ''.''" "?n \<noteq> ''..''" by auto
  moreover from assms split_name_parts [of f] have "CHR ''/'' \<notin> set ?n"
    by (auto simp: newName_def to_string_no_separator)
  ultimately show ?thesis by (simp add: plain_name_def)
qed

subsection \<open>Unique target names\<close>

lemma getUniquePath_loop_raises:
  "fs_exists w (path_div dir (newName b c e)) = Inl err
    \<Longrightarrow> getUniquePath_loop w now dir b e c = Some (Inl err)"
  by (subst getUniquePath_loop.simps) simp

lemma getUniquePath_loop_free:
  "fs_exists w (path_div dir (newName b c e)) = Inr False
    \<Longrightarrow> getUniquePath_loop w now dir b e c = Some (Inr (path_div dir (newName b c e)))"
  by (subst getUniquePath_loop.simps) simp

lemma getUniquePath_loop_last:
  "fs_exists w (path_div dir (newName b c e)) = Inr True \<Longrightarrow> 1000 \<le> c
    \<Longrightarrow> getUniquePath_loop w now dir b e c = Some (Inr (path_div dir (newName b now e)))"
  by (subst getUniquePath_loop.simps) simp

lemma getUniquePath_loop_next:
  "fs_exists w (path_div dir (newName b c e)) = Inr True \<Longrightarrow> c < 1000
    \<Longrightarrow> getUniquePath_loop w now dir b e c = getUniquePath_loop w now dir b e (c + 1)"
  by (subst getUniquePath_loop.simps) simp

lemma fs_exists_cases:
  "fs_exists w p = Inl filesystem_error \<or> fs_exists w p = Inr True \<or> fs_exists w p = Inr False"
  by (cases "entry_kind w p") (simp_all add: fs_exists_def)

lemma getUniquePath_loop_found:
  assumes "c \<le> k" and "k \<le> 1000"
    and "fs_exists w (path_div dir (newName b k e)) = Inr False"
    and "\<forall>j. c \<le> j \<and> j < k \<longrightarrow> fs_exists w (path_div dir (newName b j e)) = Inr True"
  shows "getUniquePath_loop w now dir b e c = Some (Inr (path_div dir (newName b k e)))"
  using assms
proof (induction "nat (k - c)" arbitrary: c)
  case 0
  then have "c = k" by simp
  with "0.prems"(3) show ?case by (simp add: getUniquePath_loop_free)
next
  case (Suc n)
  then have less: "c < k" by linarith
  with Suc.prems have taken: "fs_exists w (path_div dir (newName b c e)) = Inr True" by simp
  have "getUniquePath_loop w now dir b e (c + 1) = Some (Inr (path_div dir (newName b k e)))"
  proof (rule Suc.hyps(1))
    show "n = nat (k - (c + 1))" using Suc.hyps(2) by linarith
    show "c + 1 \<le> k" using less by simp
    show "k \<le> 1000" by fact
    show "fs_exists w (path_div dir (newName b k e)) = Inr False" by fact
    show "\<forall>j. c + 1 \<le> j \<and> j < k \<longrightarrow> fs_exists w (path_div dir (newName b j e)) = Inr True"
      using Suc.prems(4) by simp
  qed
  moreover from less Suc.prems(2) have "c < 1000" by simp
  ultimately show ?case using taken by (simp add: getUniquePath_loop_next)
qed

lemma getUniquePath_loop_raised:
  assumes "c \<le> k" and "k \<le> 1000"
    and "fs_exists w (path_div dir (newName b k e)) = Inl err"
    and "\<forall>j. c \<le> j \<and> j < k \<longrightarrow> fs_exists w (path_div dir (newName b j e)) = Inr True"
  shows "getUniquePath_loop w now dir b e c = Some (Inl err)"
  using assms
proof (induction "nat (k - c)" arbitrary: c)
  case 0
  then have "c = k" by simp
  with "0.prems"(3) show ?case by (simp add: getUniquePath_loop_raises)
next
  case (Suc n)
  then have less: "c < k" by linarith
  with Suc.prems have taken: "fs_exists w (path_div dir (newName b c e)) = Inr True" by simp
  have "getUniquePath_loop w now dir b e (c + 1) = Some (Inl err)"
  proof (rule Suc.hyps(1))
    show "n = nat (k - (c + 1))" using Suc.hyps(2) by linarith
    show "c + 1 \<le> k" using less by simp
    show "k \<le> 1000" by fact
    show "fs_exists w (path_div dir (newName b k e)) = Inl err" by fact
    show "\<forall>j. c + 1 \<le> j \<and> j < k \<longrightarrow> fs_exists w (path_div dir (newName b j e)) = Inr True"
      using Suc.prems(4) by simp
  qed
  moreover from less Suc.prems(2) have "c < 1000" by simp
  ultimately show ?case using taken by (simp add: getUniquePath_loop_next)
qed

lemma getUniquePath_loop_fallback:
  assumes "c \<le> 1000"
    and "\<forall>j. c \<le> j \<and> j \<le> 1000 \<longrightarrow> fs_exists w (path_div dir (newName b j e)) = Inr True"
  shows "getUniquePath_loop w now dir b e c = Some (Inr (path_div dir (newName b now e)))"
  using assms
proof (induction "nat (1000 - c)" arbitrary: c)
  case 0
  then have "c = 1000" by simp
  with "0.prems"(2) show ?case by (simp add: getUniquePath_loop_last)
next
  case (Suc n)
  then have less: "c < 1000" by linarith
  from Suc.prems have taken: "fs_exists w (path_div dir (newName b c e)) = Inr True" by simp
  have "getUniquePath_loop w now dir b e (c + 1) = Some (Inr (path_div dir (newName b now e)))"
  proof (rule Suc.hyps(1))
    show "n = nat (1000 - (c + 1))" using Suc.hyps(2) by linarith
    show "c + 1 \<le> 1000" using less by simp
    show "\<forall>j. c + 1 \<le> j \<and> j \<le> 1000 \<longrightarrow> fs_exists w (path_div dir (newName b j e)) = Inr True"
      using Suc.prems(2) by simp
  qed
  with taken less show ?case by (simp add: getUniquePath_loop_next)
qed

text \<open>
  How the loop ends when entered with a counter of at most 1000: with the exception of
  a test, with the first name from the counter on that is free, or, all names up to 1000
  being taken, with the name that carries the clock reading.
\<close>

lemma getUniquePath_loop_ends:
  assumes "c \<le> 1000"
  shows "(\<exists>k. c \<le> k \<and> k \<le> 1000
            \<and> (\<forall>j. c \<le> j \<and> j < k \<longrightarrow> fs_exists w (path_div dir (newName b j e)) = Inr True)
            \<and> fs_exists w (path_div dir (newName b k e)) = Inl filesystem_error
            \<and> getUniquePath_loop w now dir b e c = Some (Inl filesystem_error))
       \<or> (\<exists>k. c \<le> k \<and> k \<le> 1000
            \<and> (\<forall>j. c \<le> j \<and> j < k \<longrightarrow> fs_exists w (path_div dir (newName b j e)) = Inr True)
            \<and> fs_exists w (path_div dir (newName b k e)) = Inr False
            \<and> getUniquePath_loop w now dir b e c = Some (Inr (path_div dir (newName b k e))))
       \<or> ((\<forall>j. c \<le> j \<and> j \<le> 1000 \<longrightarrow> fs_exists w (path_div dir (newName b j e)) = Inr True)
            \<and> getUniquePath_loop w now dir b e c = Some (Inr (path_div dir (newName b now e))))"
    (is "?raised c \<or> ?found c \<or> ?fallback c")
  using assms
proof (induction "nat (1000 - c)" arbitrary: c)
  case 0
  then have c: "c = 1000" by simp
  from fs_exists_cases [of w "path_div dir (newName b c e)"]
  consider (raise) "fs_exists w (path_div dir (newName b c e)) = Inl filesystem_error"
    | (taken) "fs_exists w (path_div dir (newName b c e)) = Inr True"
    | (free) "fs_exists w (path_div dir (newName b c e)) = Inr False"
    by blast
  then show ?case
  proof cases
    case raise
    then have "getUniquePath_loop w now dir b e c = Some (Inl filesystem_error)"
      by (rule getUniquePath_loop_raises)
    with raise c have "?raised c" by (intro exI [of _ c]) auto
    then show ?thesis by blast
  next
    case taken
    from c have "\<forall>j. c \<le> j \<and> j \<le> 1000 \<longrightarrow> j = c" by simp
    with taken have all: "\<forall>j. c \<le> j \<and> j \<le> 1000 \<longrightarrow>
        fs_exists w (path_div dir (newName b j e)) = Inr True"
      by metis
    with c getUniquePath_loop_fallback [of c w dir b e now] have "?fallback c" by blast
    then show ?thesis by blast
  next
    case free
    then have "getUniquePath_loop w now dir b e c = Some (Inr (path_div dir (newName b c e)))"
      by (rule getUniquePath_loop_free)
    with free c have "?found c" by (intro exI [of _ c]) auto
    then show ?thesis by blast
  qed
next
  case (Suc n)
  then have less: "c < 1000" by linarith
  from fs_exists_cases [of w "path_div dir (newName b c e)"]
  consider (raise) "fs_exists w (path_div dir (newName b c e)) = Inl filesystem_error"
    | (taken) "fs_exists w (path_div dir (newName b c e)) = Inr True"
    | (free) "fs_exists w (path_div dir (newName b c e)) = Inr False"
    by blast
  then show ?case
  proof cases
    case raise
    then have "getUniquePath_loop w now dir b e c = Some (Inl filesystem_error)"
      by (rule getUniquePath_loop_raises)
    with raise less have "?raised c" by (intro exI [of _ c]) auto
    then show ?thesis by blast
  next
    case free
    then have "getUniquePath_loop w now dir b e c = Some (Inr (path_div dir (newName b c e)))"
      by (rule getUniquePath_loop_free)
    with free less have "?found c" by (intro exI [of _ c]) auto
    then show ?thesis by blast
  next
    case taken
    have step: "getUniquePath_loop w now dir b e c = getUniquePath_loop w now dir b e (c + 1)"
      using taken less by (rule getUniquePath_loop_next)
    have extend: "\<forall>j. c \<le> j \<and> j < k \<longrightarrow> fs_exists w (path_div dir (newName b j e)) = Inr True"
      if "\<forall>j. c + 1 \<le> j \<and> j < k \<longrightarrow> fs_exists w (path_div dir (newName b j e)) = Inr True"
      for k
    proof (intro allI impI)
      fix j assume j: "c \<le> j \<and> j < k"
      show "fs_exists w (path_div dir (newName b j e)) = Inr True"
      proof (cases "j = c")
        case True
        with taken show ?thesis by simp
      next
        case False
        with j have "c + 1 \<le> j \<and> j < k" by simp
        with that show ?thesis by blast
      qed
    qed
    have "n = nat (1000 - (c + 1))" using Suc.hyps(2) by linarith
    moreover have "c + 1 \<le> 1000" using less by simp
    ultimately have "?raised (c + 1) \<or> ?found (c + 1) \<or> ?fallback (c + 1)"
      by (rule Suc.hyps(1))
    then consider (r) "?raised (c + 1)" | (f) "?found (c + 1)" | (t) "?fallback (c + 1)"
      by blast
    then show ?thesis
    proof cases
      case r
      then obtain k where k: "c + 1 \<le> k" "k \<le> 1000"
          "\<forall>j. c + 1 \<le> j \<and> j < k \<longrightarrow> fs_exists w (path_div dir (newName b j e)) = Inr True"
          "fs_exists w (path_div dir (newName b k e)) = Inl filesystem_error"
          "getUniquePath_loop w now dir b e (c + 1) = Some (Inl filesystem_error)"
        by blast
      from k(1) have "c \<le> k" by simp
      with k(2,4,5) extend [OF k(3)] step have "?raised c" by (intro exI [of _ k]) auto
      then show ?thesis by blast
    next
      case f
      then obtain k where k: "c + 1 \<le> k" "k \<le> 1000"
          "\<forall>j. c + 1 \<le> j \<and> j < k \<longrightarrow> fs_exists w (path_div dir (newName b j e)) = Inr True"
          "fs_exists w (path_div dir (newName b k e)) = Inr False"
          "getUniquePath_loop w now dir b e (c + 1) = Some (Inr (path_div dir (newName b k e)))"
        by blast
      from k(1) have "c \<le> k" by simp
      with k(2,4,5) extend [OF k(3)] step have "?found c" by (intro exI [of _ k]) auto
      then show ?thesis by blast
    next
      case t
      then have all: "\<forall>j. c + 1 \<le> j \<and> j < 1001 \<longrightarrow>
            fs_exists w (path_div dir (newName b j e)) = Inr True"
        and result: "getUniquePath_loop w now dir b e (c + 1)
            = Some (Inr (path_div dir (newName b now e)))"
        by auto
      from extend [OF all] have "\<forall>j. c \<le> j \<and> j \<le> 1000 \<longrightarrow>
            fs_exists w (path_div dir (newName b j e)) = Inr True"
        by auto
      with result step have "?fallback c" by simp
      then show ?thesis by blast
    qed
  qed
qed

lemma getUniquePath_loop_cong:
  assumes "c \<le> 1000"
    and "\<forall>i. c \<le> i \<and> i \<le> 1000 \<longrightarrow>
           fs_exists w (path_div dir (newName b i e)) = fs_exists w' (path_div dir (newName b i e))"
  shows "getUniquePath_loop w now dir b e c = getUniquePath_loop w' now dir b e c"
proof -
  from getUniquePath_loop_ends [OF assms(1), of w dir b e now]
  consider (raised) k where "c \<le> k" "k \<le> 1000"
      "\<forall>j. c \<le> j \<and> j < k \<longrightarrow> fs_exists w (path_div dir (newName b j e)) = Inr True"
      "fs_exists w (path_div dir (newName b k e)) = Inl filesystem_error"
      "getUniquePath_loop w now dir b e c = Some (Inl filesystem_error)"
    | (found) k where "c \<le> k" "k \<le> 1000"
      "\<forall>j. c \<le> j \<and> j < k \<longrightarrow> fs_exists w (path_div dir (newName b j e)) = Inr True"
      "fs_exists w (path_div dir (newName b k e)) = Inr False"
      "getUniquePath_loop w now dir b e c = Some (Inr (path_div dir (newName b k e)))"
    | (fallback)
      "\<forall>j. c \<le> j \<and> j \<le> 1000 \<longrightarrow> fs_exists w (path_div dir (newName b j e)) = Inr True"
      "getUniquePath_loop w now dir b e c = Some (Inr (path_div dir (newName b now e)))"
    by blast
  then show ?thesis
  proof cases
    case raised
    from raised(1,2,3) assms(2)
    have "\<forall>j. c \<le> j \<and> j < k \<longrightarrow> fs_exists w' (path_div dir (newName b j e)) = Inr True"
      by (metis less_le_trans less_imp_le)
    moreover from raised(1,2,4) assms(2)
    have "fs_exists w' (path_div dir (newName b k e)) = Inl filesystem_error" by metis
    ultimately have "getUniquePath_loop w' now dir b e c = Some (Inl filesystem_error)"
      using raised(1,2) by (intro getUniquePath_loop_raised [of c k])
    with raised(5) show ?thesis by simp
  next
    case found
    from found(1,2,3) assms(2)
    have "\<forall>j. c \<le> j \<and> j < k \<longrightarrow> fs_exists w' (path_div dir (newName b j e)) = Inr True"
      by (metis less_le_trans less_imp_le)
    moreover from found(1,2,4) assms(2)
    have "fs_exists w' (path_div dir (newName b k e)) = Inr False" by metis
    ultimately have "getUniquePath_loop w' now dir b e c
        = Some (Inr (path_div dir (newName b k e)))"
      using found(1,2) by (intro getUniquePath_loop_found [of c k])
    with found(5) show ?thesis by simp
  next
    case fallback
    from fallback(1) assms(2)
    have "\<forall>j. c \<le> j \<and> j \<le> 1000 \<longrightarrow> fs_exists w' (path_div dir (newName b j e)) = Inr True"
      by metis
    with assms(1) have "getUniquePath_loop w' now dir b e c
        = Some (Inr (path_div dir (newName b now e)))"
      by (rule getUniquePath_loop_fallback)
    with fallback(2) show ?thesis by simp
  qed
qed

lemma getUniquePath_raises:
  "fs_exists w (path_div dir filename) = Inl e \<Longrightarrow> getUniquePath w now dir filename = Some (Inl e)"
  by (simp add: getUniquePath_def)

lemma getUniquePath_free:
  "fs_exists w (path_div dir filename) = Inr False
    \<Longrightarrow> getUniquePath w now dir filename = Some (Inr (path_div dir filename))"
  by (simp add: getUniquePath_def)

lemma getUniquePath_taken:
  "fs_exists w (path_div dir filename) = Inr True
    \<Longrightarrow> getUniquePath w now dir filename
        = getUniquePath_loop w now dir (fst (split_name filename)) (snd (split_name filename)) 1"
  by (simp add: getUniquePath_def)

text \<open>
  Every way \<^verbatim>\<open>getUniquePath\<close> ends: with the exception of a test, or with a path
  directly obtained from the folder and a name, the original one or one with a suffix.
\<close>

lemma getUniquePath_ends:
  "getUniquePath w now dir filename = Some (Inl filesystem_error)
   \<or> (\<exists>name. getUniquePath w now dir filename = Some (Inr (path_div dir name))
        \<and> (name = filename
             \<or> (\<exists>i. name = newName (fst (split_name filename)) i (snd (split_name filename)))))"
proof -
  from fs_exists_cases [of w "path_div dir filename"]
  consider (raise) "fs_exists w (path_div dir filename) = Inl filesystem_error"
    | (taken) "fs_exists w (path_div dir filename) = Inr True"
    | (free) "fs_exists w (path_div dir filename) = Inr False"
    by blast
  then show ?thesis
  proof cases
    case raise
    then show ?thesis by (simp add: getUniquePath_raises)
  next
    case free
    then show ?thesis by (auto simp: getUniquePath_free)
  next
    case taken
    from getUniquePath_loop_ends [of 1 w dir "fst (split_name filename)"
        "snd (split_name filename)" now]
    show ?thesis unfolding getUniquePath_taken [OF taken] by auto
  qed
qed

lemma split_name_no_dot: "CHR ''.'' \<notin> set f \<Longrightarrow> split_name f = (f, '''')"
  by (simp add: split_name_def rfind_None_iff [THEN iffD2])

lemma split_name_dot:
  "CHR ''.'' \<notin> set x \<Longrightarrow> b \<noteq> [] \<Longrightarrow> split_name (b @ ''.'' @ x) = (b, ''.'' @ x)"
  using rfind_append_last [of "CHR ''.''" x b]
  by (simp add: split_name_def substr_to_def substr_from_def)

lemma split_name_hidden:
  "CHR ''.'' \<notin> set x \<Longrightarrow> split_name (''.'' @ x) = (''.'' @ x, '''')"
  using rfind_append_last [of "CHR ''.''" x "[]"]
  by (simp add: split_name_def)

lemma digit_chars:
  "char_of (48::nat) = CHR ''0''" "char_of (49::nat) = CHR ''1''" "char_of (50::nat) = CHR ''2''"
  "char_of (51::nat) = CHR ''3''" "char_of (52::nat) = CHR ''4''" "char_of (53::nat) = CHR ''5''"
  "char_of (54::nat) = CHR ''6''" "char_of (55::nat) = CHR ''7''" "char_of (56::nat) = CHR ''8''"
  "char_of (57::nat) = CHR ''9''"
  by code_simp+

lemma to_string_1: "to_string 1 = ''1''"
  by (simp add: to_string_def digits_of.simps digit_chars)

lemma to_string_2: "to_string 2 = ''2''"
  by (simp add: to_string_def digits_of.simps digit_chars)

lemma to_string_1001: "to_string 1001 = ''1001''"
  by (simp add: to_string_def digits_of.simps digit_chars)

lemma to_string_now: "to_string 1700000000000 = ''1700000000000''"
  by (simp add: to_string_def digits_of.simps digit_chars)

lemma digits_value_snoc:
  "digits_value (ds @ [c]) = digits_value ds * 10 + (int (of_char c) - 48)"
  by (simp add: digits_value_def)

lemma of_char_digit: "d < 10 \<Longrightarrow> (of_char (char_of (48 + d :: nat)) :: nat) = 48 + d"
  by simp

lemma digits_value_digits_of: "digits_value (digits_of n) = int n"
proof (induction n rule: digits_of.induct)
  case (1 n)
  show ?case
  proof (cases "n < 10")
    case True
    then have "digits_of n = [char_of (48 + n)]"
      by (subst digits_of.simps) simp
    with True show ?thesis
      using digits_value_snoc [of "[]" "char_of (48 + n)"]
      by (simp add: digits_value_def)
  next
    case False
    then have unfold: "digits_of n = digits_of (n div 10) @ [char_of (48 + n mod 10)]"
      by (subst digits_of.simps) simp
    have "(of_char (char_of (48 + n mod 10 :: nat)) :: nat) = 48 + n mod 10"
      by (rule of_char_digit) simp
    moreover have "int (n div 10) * 10 + int (n mod 10) = int n"
      by presburger
    ultimately show ?thesis
      using False "1.IH" unfold by (simp add: digits_value_snoc)
  qed
qed

lemma to_string_value: "0 \<le> i \<Longrightarrow> digits_value (to_string i) = i"
  by (simp add: to_string_def digits_value_digits_of)

lemma newName_inject:
  "0 \<le> i \<Longrightarrow> 0 \<le> j \<Longrightarrow> newName b i e = newName b j e \<Longrightarrow> i = j"
proof -
  assume nonneg: "0 \<le> i" "0 \<le> j" and eq: "newName b i e = newName b j e"
  then have "length (to_string i) = length (to_string j)"
    by (metis (no_types) add_left_cancel add_right_cancel length_append newName_def)
  with eq have "to_string i = to_string j"
    by (simp add: newName_def)
  with nonneg show "i = j"
    by (metis to_string_value)
qed

lemma split_a_txt: "split_name ''a.txt'' = (''a'', ''.txt'')"
  by (simp add: split_name_def substr_to_def substr_from_def)

lemma a_names_plain: "plain_name (newName ''a'' i ''.txt'')"
  using newName_plain [of "''a.txt''" i] by (simp add: split_a_txt)

lemma a_names:
  "path_div dir (newName ''a'' i ''.txt'') = dir @ [newName ''a'' i ''.txt'']"
  "path_div dir ''a.txt'' = dir @ [''a.txt'']"
  "path_div dir ''b.txt'' = dir @ [''b.txt'']"
  by (simp_all add: path_div_plain a_names_plain) (simp_all add: path_div_plain plain_name_def)

lemma fs_exists_unlocked:
  "locked w = [] \<Longrightarrow> length (cwd w) < length p
    \<Longrightarrow> fs_exists w p = Inr (p \<in> fst ` set (nodes w))"
proof -
  assume "locked w = []" "length (cwd w) < length p"
  then have "searchable w p" "entry_kind w p = map_of (nodes w) p"
    by (auto simp: searchable_def entry_kind_def)
  then show ?thesis
    by (simp add: fs_exists_def map_of_eq_None_iff)
qed

lemma crowded_taken:
  assumes "1 \<le> j" and "j \<le> 1000"
  shows "fs_exists crowded (path_div [''home'', ''Documents''] (newName ''a'' j ''.txt''))
      = Inr True"
proof -
  from assms have "nat j \<in> set [1..<1001]" by auto
  moreover from assms have "int (nat j) = j" by simp
  ultimately have "j \<in> int ` set [1..<1001]" by (metis imageI)
  then have "[''home'', ''Documents'', newName ''a'' j ''.txt''] \<in> fst ` set (nodes crowded)"
    by (auto simp: crowded_def image_iff)
  moreover have "locked crowded = []" "cwd crowded = [''home'']" by (simp_all add: crowded_def)
  ultimately show ?thesis by (simp add: fs_exists_unlocked a_names)
qed

lemma crowded_free:
  "fs_exists crowded (path_div [''home'', ''Documents''] (newName ''a'' 1001 ''.txt''))
      = Inr False"
proof -
  have "[''home'', ''Documents'', newName ''a'' 1001 ''.txt''] \<notin> fst ` set (nodes crowded)"
  proof
    assume "[''home'', ''Documents'', newName ''a'' 1001 ''.txt''] \<in> fst ` set (nodes crowded)"
    then consider "newName ''a'' 1001 ''.txt'' = ''a.txt''"
      | i where "i \<in> set [1..<1001]" "newName ''a'' 1001 ''.txt'' = newName ''a'' (int i) ''.txt''"
      by (auto simp: crowded_def)
    then show False
    proof cases
      case 1
      then show ?thesis by (simp add: newName_def)
    next
      case (2 i)
      then have "(1001::int) = int i"
        by (intro newName_inject [of 1001 "int i" "''a''" "''.txt''"]) simp_all
      with 2(1) show ?thesis by simp
    qed
  qed
  moreover have "locked crowded = []" "cwd crowded = [''home'']" by (simp_all add: crowded_def)
  ultimately show ?thesis by (simp add: fs_exists_unlocked a_names)
qed

lemma crowded_original:
  "fs_exists crowded (path_div [''home'', ''Documents''] ''a.txt'') = Inr True"
proof -
  have "locked crowded = []" "cwd crowded = [''home'']"
    "[''home'', ''Documents'', ''a.txt''] \<in> fst ` set (nodes crowded)"
    by (simp_all add: crowded_def)
  then show ?thesis by (simp add: fs_exists_unlocked a_names)
qed

lemma collided_tests:
  "fs_exists collided (path_div [''home'', ''Documents''] ''a.txt'') = Inr True"
  "fs_exists collided (path_div [''home'', ''Documents''] ''a_1.txt'') = Inr True"
  "fs_exists collided (path_div [''home'', ''Documents''] ''a_2.txt'') = Inr False"
  "fs_exists collided (path_div [''home'', ''Documents''] ''b.txt'') = Inr False"
  by code_simp+

text \<open>
  C4, as the source has it. The original name is returned when it is free. Otherwise the
  name is split at its last dot (the dot stays with the extension; a name with no dot,
  or whose only dot is its first character, has no extension) and the result is the
  name with the smallest suffix from 1 to 1000 that is free, when there is one; when all
  thousand are taken, it is the name with the clock reading as its suffix, free or not.
  With \<open>a.txt\<close> and \<open>a_1.txt\<close> present and \<open>a_2.txt\<close> absent the result is
  \<open>a_2.txt\<close>. Free and taken are the answers of the existence tests.
\<close>

theorem getUniquePath_smallest_free:
  "(fs_exists w (path_div dir filename) = Inr False
      \<longrightarrow> getUniquePath w now dir filename = Some (Inr (path_div dir filename)))
   \<and> (fs_exists w (path_div dir filename) = Inr True \<and> 1 \<le> k \<and> k \<le> 1000
        \<and> fs_exists w (path_div dir
               (newName (fst (split_name filename)) k (snd (split_name filename)))) = Inr False
        \<and> (\<forall>j. 1 \<le> j \<and> j < k \<longrightarrow>
               fs_exists w (path_div dir
                 (newName (fst (split_name filename)) j (snd (split_name filename)))) = Inr True)
      \<longrightarrow> getUniquePath w now dir filename
            = Some (Inr (path_div dir
                (newName (fst (split_name filename)) k (snd (split_name filename))))))
   \<and> (fs_exists w (path_div dir filename) = Inr True
        \<and> (\<forall>j. 1 \<le> j \<and> j \<le> 1000 \<longrightarrow>
               fs_exists w (path_div dir
                 (newName (fst (split_name filename)) j (snd (split_name filename)))) = Inr True)
      \<longrightarrow> getUniquePath w now dir filename
            = Some (Inr (path_div dir
                (newName (fst (split_name filename)) now (snd (split_name filename))))))
   \<and> (CHR ''.'' \<notin> set x \<and> b \<noteq> [] \<longrightarrow> split_name (b @ ''.'' @ x) = (b, ''.'' @ x))
   \<and> (CHR ''.'' \<notin> set filename \<longrightarrow> split_name filename = (filename, ''''))
   \<and> (CHR ''.'' \<notin> set x \<longrightarrow> split_name (''.'' @ x) = (''.'' @ x, ''''))
   \<and> (fs_exists w (path_div dir ''a.txt'') = Inr True
        \<and> fs_exists w (path_div dir ''a_1.txt'') = Inr True
        \<and> fs_exists w (path_div dir ''a_2.txt'') = Inr False
      \<longrightarrow> getUniquePath w now dir ''a.txt'' = Some (Inr (path_div dir ''a_2.txt'')))"
proof -
  let ?cand = "\<lambda>i. path_div dir (newName (fst (split_name filename)) i (snd (split_name filename)))"
  have free: "getUniquePath w now dir filename = Some (Inr (path_div dir filename))"
    if "fs_exists w (path_div dir filename) = Inr False"
    using that by (rule getUniquePath_free)
  have found: "getUniquePath w now dir filename = Some (Inr (?cand k))"
    if "fs_exists w (path_div dir filename) = Inr True" "1 \<le> k" "k \<le> 1000"
      "fs_exists w (?cand k) = Inr False"
      "\<forall>j. 1 \<le> j \<and> j < k \<longrightarrow> fs_exists w (?cand j) = Inr True"
    using that getUniquePath_loop_found [of 1 k w dir "fst (split_name filename)"
        "snd (split_name filename)" now]
    by (simp add: getUniquePath_taken)
  have fallback: "getUniquePath w now dir filename = Some (Inr (?cand now))"
    if "fs_exists w (path_div dir filename) = Inr True"
      "\<forall>j. 1 \<le> j \<and> j \<le> 1000 \<longrightarrow> fs_exists w (?cand j) = Inr True"
    using that getUniquePath_loop_fallback [of 1 w dir "fst (split_name filename)"
        "snd (split_name filename)" now]
    by (simp add: getUniquePath_taken)
  have example: "getUniquePath w now dir ''a.txt'' = Some (Inr (path_div dir ''a_2.txt''))"
    if "fs_exists w (path_div dir ''a.txt'') = Inr True"
      "fs_exists w (path_div dir ''a_1.txt'') = Inr True"
      "fs_exists w (path_div dir ''a_2.txt'') = Inr False"
  proof -
    have names: "newName ''a'' 1 ''.txt'' = ''a_1.txt''" "newName ''a'' 2 ''.txt'' = ''a_2.txt''"
      by (simp_all add: newName_def to_string_1 to_string_2)
    have "\<forall>j::int. 1 \<le> j \<and> j < 2 \<longrightarrow> j = 1" by auto
    with that names
    have "\<forall>j. 1 \<le> j \<and> j < 2 \<longrightarrow> fs_exists w (path_div dir (newName ''a'' j ''.txt'')) = Inr True"
      by metis
    with that names
    have "getUniquePath_loop w now dir ''a'' ''.txt'' 1
        = Some (Inr (path_div dir (newName ''a'' 2 ''.txt'')))"
      by (intro getUniquePath_loop_found) simp_all
    with that names show ?thesis
      by (simp add: getUniquePath_taken split_a_txt)
  qed
  show ?thesis
    using free found fallback example split_name_dot [of x b] split_name_no_dot [of filename]
      split_name_hidden [of x]
    by blast
qed

theorem getUniquePath_smallest_free_witness:
  "fs_exists collided (path_div [''home'', ''Documents''] ''a.txt'') = Inr True
   \<and> fs_exists collided (path_div [''home'', ''Documents''] ''a_1.txt'') = Inr True
   \<and> getUniquePath collided 1700000000000 [''home'', ''Documents''] ''a.txt''
       = Some (Inr [''home'', ''Documents'', ''a_2.txt''])
   \<and> getUniquePath collided 1700000000000 [''home'', ''Documents''] ''b.txt''
       = Some (Inr [''home'', ''Documents'', ''b.txt''])"
proof -
  note h = collided_tests
  note t1 = getUniquePath_smallest_free [where w = collided and dir = "[''home'', ''Documents'']"
      and now = 1700000000000 and filename = "''b.txt''"]
  have a: "getUniquePath collided 1700000000000 [''home'', ''Documents''] ''a.txt''
      = Some (Inr (path_div [''home'', ''Documents''] ''a_2.txt''))"
    using t1 h by blast
  have b: "getUniquePath collided 1700000000000 [''home'', ''Documents''] ''b.txt''
      = Some (Inr (path_div [''home'', ''Documents''] ''b.txt''))"
    using t1 h by blast
  have "path_div [''home'', ''Documents''] ''a_2.txt'' = [''home'', ''Documents'', ''a_2.txt'']"
    "path_div [''home'', ''Documents''] ''b.txt'' = [''home'', ''Documents'', ''b.txt'']"
    by (simp_all add: path_div_plain plain_name_def)
  with a b h show ?thesis by simp
qed

theorem smallest_suffix_counterexample:
  "fs_exists crowded [''home'', ''Documents'', ''a.txt''] = Inr True
   \<and> list_all (\<lambda>i. fs_exists crowded [''home'', ''Documents'', newName ''a'' i ''.txt''] = Inr True)
        (map int [1..<1001])
   \<and> fs_exists crowded [''home'', ''Documents'', ''a_1001.txt''] = Inr False
   \<and> getUniquePath crowded 1700000000000 [''home'', ''Documents''] ''a.txt''
       = Some (Inr [''home'', ''Documents'', ''a_1700000000000.txt''])"
proof -
  have orig: "fs_exists crowded [''home'', ''Documents'', ''a.txt''] = Inr True"
    using crowded_original by (simp add: a_names)
  have taken: "\<forall>j. 1 \<le> j \<and> j \<le> 1000 \<longrightarrow>
      fs_exists crowded (path_div [''home'', ''Documents''] (newName ''a'' j ''.txt'')) = Inr True"
    using crowded_taken by blast
  then have all: "list_all
        (\<lambda>i. fs_exists crowded [''home'', ''Documents'', newName ''a'' i ''.txt''] = Inr True)
        (map int [1..<1001])"
    by (auto simp: list_all_iff a_names)
  have "newName ''a'' 1001 ''.txt'' = ''a_1001.txt''"
    by (simp add: newName_def to_string_1001)
  with crowded_free a_names(1) [of "[''home'', ''Documents'']" 1001]
  have free: "fs_exists crowded [''home'', ''Documents'', ''a_1001.txt''] = Inr False"
    by simp
  have "getUniquePath_loop crowded 1700000000000 [''home'', ''Documents''] ''a'' ''.txt'' 1
      = Some (Inr (path_div [''home'', ''Documents''] (newName ''a'' 1700000000000 ''.txt'')))"
    using taken by (intro getUniquePath_loop_fallback) simp_all
  with crowded_original
  have "getUniquePath crowded 1700000000000 [''home'', ''Documents''] ''a.txt''
       = Some (Inr [''home'', ''Documents'', ''a_1700000000000.txt''])"
    by (simp add: getUniquePath_taken split_a_txt a_names)
      (simp add: newName_def to_string_now)
  with orig all free show ?thesis by blast
qed

lemma getUniquePath_vault:
  "getUniquePath vault now [''home'', ''user'', ''Documents''] ''a.txt''
     = Some (Inl filesystem_error)"
proof -
  have "fs_exists vault (path_div [''home'', ''user'', ''Documents''] ''a.txt'')
      = Inl filesystem_error"
    by code_simp
  then show ?thesis by (rule getUniquePath_raises)
qed

text \<open>
  C5. The computation of the unique name ends for every input. It tests the original
  name and the names with the suffixes from 1 to 1000 and no other: two states of the
  file system in which these tests answer alike give the same result. When the original
  name and all thousand are taken, it falls back to the name with the clock reading.
  When none of these tests raises an exception the result is a path: the original name,
  one with a suffix from 1 to 1000, or the one with the clock reading. The one other way
  to end is the exception of one of these tests.
\<close>

theorem getUniquePath_returns:
  "(\<exists>r. getUniquePath w now dir filename = Some r)
   \<and> (fs_exists w (path_div dir filename) = fs_exists w' (path_div dir filename)
        \<and> (\<forall>i. 1 \<le> i \<and> i \<le> 1000 \<longrightarrow>
              fs_exists w (path_div dir
                 (newName (fst (split_name filename)) i (snd (split_name filename))))
              = fs_exists w' (path_div dir
                 (newName (fst (split_name filename)) i (snd (split_name filename)))))
      \<longrightarrow> getUniquePath w now dir filename = getUniquePath w' now dir filename)
   \<and> (fs_exists w (path_div dir filename) = Inr True
        \<and> (\<forall>i. 1 \<le> i \<and> i \<le> 1000 \<longrightarrow>
              fs_exists w (path_div dir
                 (newName (fst (split_name filename)) i (snd (split_name filename)))) = Inr True)
      \<longrightarrow> getUniquePath w now dir filename
            = Some (Inr (path_div dir
                (newName (fst (split_name filename)) now (snd (split_name filename))))))
   \<and> (fs_exists w (path_div dir filename) \<noteq> Inl filesystem_error
        \<and> (\<forall>i. 1 \<le> i \<and> i \<le> 1000 \<longrightarrow>
              fs_exists w (path_div dir
                 (newName (fst (split_name filename)) i (snd (split_name filename))))
              \<noteq> Inl filesystem_error)
      \<longrightarrow> (\<exists>p. getUniquePath w now dir filename = Some (Inr p)
             \<and> (p = path_div dir filename
                  \<or> p = path_div dir
                         (newName (fst (split_name filename)) now (snd (split_name filename)))
                  \<or> (\<exists>i. 1 \<le> i \<and> i \<le> 1000
                         \<and> p = path_div dir
                               (newName (fst (split_name filename)) i
                                  (snd (split_name filename)))))))
   \<and> (getUniquePath w now dir filename = Some (Inl e)
      \<longrightarrow> fs_exists w (path_div dir filename) = Inl e
          \<or> (\<exists>i. 1 \<le> i \<and> i \<le> 1000
                \<and> fs_exists w (path_div dir
                     (newName (fst (split_name filename)) i (snd (split_name filename))))
                   = Inl e))"
proof -
  let ?b = "fst (split_name filename)" and ?e = "snd (split_name filename)"
  let ?cand = "\<lambda>i. path_div dir (newName ?b i ?e)"
  have "(1::int) \<le> 1000" by simp
  note loop = getUniquePath_loop_ends [OF this, of w dir ?b ?e now]
  have ends: "\<exists>r. getUniquePath w now dir filename = Some r"
    using getUniquePath_ends [of w now dir filename] by blast
  have same: "getUniquePath w now dir filename = getUniquePath w' now dir filename"
    if orig: "fs_exists w (path_div dir filename) = fs_exists w' (path_div dir filename)"
      and rest: "\<forall>i. 1 \<le> i \<and> i \<le> 1000 \<longrightarrow> fs_exists w (?cand i) = fs_exists w' (?cand i)"
  proof -
    from fs_exists_cases [of w "path_div dir filename"]
    consider (raise) "fs_exists w (path_div dir filename) = Inl filesystem_error"
      | (taken) "fs_exists w (path_div dir filename) = Inr True"
      | (free) "fs_exists w (path_div dir filename) = Inr False"
      by blast
    then show ?thesis
    proof cases
      case raise
      with orig have "fs_exists w' (path_div dir filename) = Inl filesystem_error" by simp
      with raise show ?thesis by (simp add: getUniquePath_raises)
    next
      case free
      with orig have "fs_exists w' (path_div dir filename) = Inr False" by simp
      with free show ?thesis by (simp add: getUniquePath_free)
    next
      case taken
      with orig have "fs_exists w' (path_div dir filename) = Inr True" by simp
      with taken rest getUniquePath_loop_cong [of 1 w dir ?b ?e w' now]
      show ?thesis by (simp add: getUniquePath_taken)
    qed
  qed
  have fallback: "getUniquePath w now dir filename = Some (Inr (?cand now))"
    if "fs_exists w (path_div dir filename) = Inr True"
      "\<forall>i. 1 \<le> i \<and> i \<le> 1000 \<longrightarrow> fs_exists w (?cand i) = Inr True"
    using that getUniquePath_loop_fallback [of 1 w dir ?b ?e now]
    by (simp add: getUniquePath_taken)
  have path: "\<exists>p. getUniquePath w now dir filename = Some (Inr p)
             \<and> (p = path_div dir filename \<or> p = ?cand now
                  \<or> (\<exists>i. 1 \<le> i \<and> i \<le> 1000 \<and> p = ?cand i))"
    if orig: "fs_exists w (path_div dir filename) \<noteq> Inl filesystem_error"
      and rest: "\<forall>i. 1 \<le> i \<and> i \<le> 1000 \<longrightarrow> fs_exists w (?cand i) \<noteq> Inl filesystem_error"
  proof -
    from orig fs_exists_cases [of w "path_div dir filename"]
    consider (taken) "fs_exists w (path_div dir filename) = Inr True"
      | (free) "fs_exists w (path_div dir filename) = Inr False"
      by blast
    then show ?thesis
    proof cases
      case free
      then show ?thesis by (simp add: getUniquePath_free)
    next
      case taken
      from loop rest show ?thesis
        unfolding getUniquePath_taken [OF taken] by blast
    qed
  qed
  have raised: "fs_exists w (path_div dir filename) = Inl e
          \<or> (\<exists>i. 1 \<le> i \<and> i \<le> 1000 \<and> fs_exists w (?cand i) = Inl e)"
    if result: "getUniquePath w now dir filename = Some (Inl e)"
  proof -
    have e: "e = filesystem_error" by (cases e) simp
    from fs_exists_cases [of w "path_div dir filename"]
    consider (raise) "fs_exists w (path_div dir filename) = Inl filesystem_error"
      | (taken) "fs_exists w (path_div dir filename) = Inr True"
      | (free) "fs_exists w (path_div dir filename) = Inr False"
      by blast
    then show ?thesis
    proof cases
      case raise
      with e show ?thesis by simp
    next
      case free
      with result show ?thesis by (simp add: getUniquePath_free)
    next
      case taken
      from loop result e show ?thesis
        unfolding getUniquePath_taken [OF taken] by auto
    qed
  qed
  from ends same fallback path raised show ?thesis by blast
qed

theorem getUniquePath_returns_witness:
  "(\<exists>r. getUniquePath crowded 1700000000000 [''home'', ''Documents''] ''a.txt'' = Some r)
   \<and> getUniquePath crowded 1700000000000 [''home'', ''Documents''] ''a.txt''
       = Some (Inr [''home'', ''Documents'', ''a_1700000000000.txt''])
   \<and> getUniquePath crowded 1700000000000 [''home'', ''Documents''] ''a.txt''
       = getUniquePath (crowded\<lparr>denied := [[''home'']]\<rparr>) 1700000000000
           [''home'', ''Documents''] ''a.txt''
   \<and> fs_exists vault (path_div [''home'', ''user'', ''Documents''] ''a.txt'')
       = Inl filesystem_error
   \<and> getUniquePath vault 1700000000000 [''home'', ''user'', ''Documents''] ''a.txt''
       = Some (Inl filesystem_error)"
proof -
  have same: "fs_exists crowded p = fs_exists (crowded\<lparr>denied := [[''home'']]\<rparr>) p" for p
    by (simp add: fs_exists_def searchable_def entry_kind_def)
  have taken: "\<forall>i. 1 \<le> i \<and> i \<le> 1000 \<longrightarrow>
      fs_exists crowded (path_div [''home'', ''Documents'']
        (newName (fst (split_name ''a.txt'')) i (snd (split_name ''a.txt'')))) = Inr True"
    using crowded_taken by (simp add: split_a_txt)
  have safe: "\<forall>i. 1 \<le> i \<and> i \<le> 1000 \<longrightarrow>
      fs_exists crowded (path_div [''home'', ''Documents'']
        (newName (fst (split_name ''a.txt'')) i (snd (split_name ''a.txt''))))
      \<noteq> Inl filesystem_error"
    using taken by simp
  have name: "path_div [''home'', ''Documents'']
        (newName (fst (split_name ''a.txt'')) 1700000000000 (snd (split_name ''a.txt'')))
      = [''home'', ''Documents'', ''a_1700000000000.txt'']"
    by (simp add: split_a_txt a_names) (simp add: newName_def to_string_now)
  note t = getUniquePath_returns [where w = crowded and w' = "crowded\<lparr>denied := [[''home'']]\<rparr>"
      and now = 1700000000000 and dir = "[''home'', ''Documents'']" and filename = "''a.txt''"]
  note v = getUniquePath_returns [where w = vault and now = 1700000000000
      and dir = "[''home'', ''user'', ''Documents'']" and filename = "''a.txt''"
      and e = filesystem_error]
  from t have ends: "\<exists>r. getUniquePath crowded 1700000000000 [''home'', ''Documents''] ''a.txt''
      = Some r"
    by blast
  from t crowded_original taken name
  have fallback: "getUniquePath crowded 1700000000000 [''home'', ''Documents''] ''a.txt''
       = Some (Inr [''home'', ''Documents'', ''a_1700000000000.txt''])"
    by simp
  from t same
  have cong: "getUniquePath crowded 1700000000000 [''home'', ''Documents''] ''a.txt''
       = getUniquePath (crowded\<lparr>denied := [[''home'']]\<rparr>) 1700000000000
           [''home'', ''Documents''] ''a.txt''"
    by blast
  have test: "fs_exists vault (path_div [''home'', ''user'', ''Documents''] ''a.txt'')
       = Inl filesystem_error"
    by code_simp
  from v have "\<exists>r. getUniquePath vault 1700000000000 [''home'', ''user'', ''Documents''] ''a.txt''
      = Some r"
    by blast
  with test have raised: "getUniquePath vault 1700000000000 [''home'', ''user'', ''Documents''] ''a.txt''
       = Some (Inl filesystem_error)"
    by (simp add: getUniquePath_raises)
  from ends fallback cong test raised show ?thesis by blast
qed

lemma FILE_CATEGORIES_order:
  "map fst FILE_CATEGORIES = [''Archives'', ''Audio'', ''Books'', ''Code'', ''Database'',
     ''Documents'', ''Executables'', ''Images'', ''Videos'']"
  by code_simp





subsection \<open>The argument parser\<close>

lemma parse_end:
  "length argv \<le> i \<Longrightarrow> parseArguments_loop argv i (config, err) = (config, err)"
  by (subst parseArguments_loop.simps) simp

lemma parse_help:
  "i < length argv \<Longrightarrow> argv ! i = ''-h'' \<or> argv ! i = ''--help''
    \<Longrightarrow> parseArguments_loop argv i (config, err)
        = parseArguments_loop argv (i + 1) (config\<lparr>showHelp := True\<rparr>, err)"
  by (subst parseArguments_loop.simps) simp

lemma parse_version:
  "i < length argv \<Longrightarrow> argv ! i = ''--version''
    \<Longrightarrow> parseArguments_loop argv i (config, err)
        = parseArguments_loop argv (i + 1) (config\<lparr>showVersion := True\<rparr>, err)"
  by (subst parseArguments_loop.simps) simp

lemma parse_verbose:
  "i < length argv \<Longrightarrow> argv ! i = ''-v'' \<or> argv ! i = ''--verbose''
    \<Longrightarrow> parseArguments_loop argv i (config, err)
        = parseArguments_loop argv (i + 1) (config\<lparr>verbose := True\<rparr>, err)"
  by (subst parseArguments_loop.simps) auto

lemma parse_dry_run:
  "i < length argv \<Longrightarrow> argv ! i = ''-n'' \<or> argv ! i = ''--dry-run''
    \<Longrightarrow> parseArguments_loop argv i (config, err)
        = parseArguments_loop argv (i + 1) (config\<lparr>dryRun := True\<rparr>, err)"
  by (subst parseArguments_loop.simps) auto

lemma parse_recursive:
  "i < length argv \<Longrightarrow> argv ! i = ''-r'' \<or> argv ! i = ''--recursive''
    \<Longrightarrow> parseArguments_loop argv i (config, err)
        = parseArguments_loop argv (i + 1) (config\<lparr>recursive := True\<rparr>, err)"
  by (subst parseArguments_loop.simps) auto

lemma parse_depth_ok:
  "i + 1 < length argv \<Longrightarrow> argv ! i = ''-d'' \<or> argv ! i = ''--depth''
    \<Longrightarrow> stoi (argv ! (i + 1)) = Inr n \<Longrightarrow> 1 \<le> n
    \<Longrightarrow> parseArguments_loop argv i (config, err)
        = parseArguments_loop argv (i + 2) (config\<lparr>depth := n\<rparr>, err)"
  by (subst parseArguments_loop.simps) auto

lemma parse_depth_small:
  "i + 1 < length argv \<Longrightarrow> argv ! i = ''-d'' \<or> argv ! i = ''--depth''
    \<Longrightarrow> stoi (argv ! (i + 1)) = Inr n \<Longrightarrow> n < 1
    \<Longrightarrow> parseArguments_loop argv i (config, err)
        = parseArguments_loop argv (i + 2) (config\<lparr>depth := 1\<rparr>, err @ [WarnDepthTooSmall])"
  by (subst parseArguments_loop.simps) auto

lemma parse_depth_invalid:
  "i + 1 < length argv \<Longrightarrow> argv ! i = ''-d'' \<or> argv ! i = ''--depth''
    \<Longrightarrow> stoi (argv ! (i + 1)) = Inl e
    \<Longrightarrow> parseArguments_loop argv i (config, err)
        = parseArguments_loop argv (i + 3) (config, err @ [WarnInvalidDepth])"
  by (subst parseArguments_loop.simps) auto

lemma parse_prefix:
  "i + 1 < length argv \<Longrightarrow> argv ! i = ''-p'' \<or> argv ! i = ''--prefix''
    \<Longrightarrow> parseArguments_loop argv i (config, err)
        = parseArguments_loop argv (i + 2) (config\<lparr>prefix := argv ! (i + 1)\<rparr>, err)"
  by (subst parseArguments_loop.simps) auto

lemma parse_unknown:
  "i < length argv
    \<Longrightarrow> argv ! i \<notin> set [''-h'', ''--help'', ''--version'', ''-v'', ''--verbose'', ''-n'',
          ''--dry-run'', ''-r'', ''--recursive'']
    \<Longrightarrow> \<not> (argv ! i \<in> set [''-d'', ''--depth'', ''-p'', ''--prefix''] \<and> i + 1 < length argv)
    \<Longrightarrow> parseArguments_loop argv i (config, err)
        = parseArguments_loop argv (i + 1) (config, err @ [UnknownOption (argv ! i)])"
  by (subst parseArguments_loop.simps) auto

lemma parse_cases:
  "length argv \<le> i
   \<or> (i < length argv \<and> (argv ! i = ''-h'' \<or> argv ! i = ''--help''))
   \<or> (i < length argv \<and> argv ! i = ''--version'')
   \<or> (i < length argv \<and> (argv ! i = ''-v'' \<or> argv ! i = ''--verbose''))
   \<or> (i < length argv \<and> (argv ! i = ''-n'' \<or> argv ! i = ''--dry-run''))
   \<or> (i < length argv \<and> (argv ! i = ''-r'' \<or> argv ! i = ''--recursive''))
   \<or> (i + 1 < length argv \<and> (argv ! i = ''-d'' \<or> argv ! i = ''--depth'')
        \<and> (\<exists>n. stoi (argv ! (i + 1)) = Inr n \<and> 1 \<le> n))
   \<or> (i + 1 < length argv \<and> (argv ! i = ''-d'' \<or> argv ! i = ''--depth'')
        \<and> (\<exists>n. stoi (argv ! (i + 1)) = Inr n \<and> n < 1))
   \<or> (i + 1 < length argv \<and> (argv ! i = ''-d'' \<or> argv ! i = ''--depth'')
        \<and> (\<exists>e. stoi (argv ! (i + 1)) = Inl e))
   \<or> (i + 1 < length argv \<and> (argv ! i = ''-p'' \<or> argv ! i = ''--prefix''))
   \<or> (i < length argv
        \<and> argv ! i \<notin> set [''-h'', ''--help'', ''--version'', ''-v'', ''--verbose'', ''-n'',
              ''--dry-run'', ''-r'', ''--recursive'']
        \<and> \<not> (argv ! i \<in> set [''-d'', ''--depth'', ''-p'', ''--prefix''] \<and> i + 1 < length argv))"
proof (cases "stoi (argv ! (i + 1))")
  case (Inl e)
  then show ?thesis by (cases "i < length argv") auto
next
  case (Inr n)
  then show ?thesis by (cases "i < length argv"; cases "n < 1") auto
qed

lemma parseArguments_loop_depth:
  "1 \<le> depth (fst s) \<Longrightarrow> 1 \<le> depth (fst (parseArguments_loop argv i s))"
proof (induction "length argv - i" arbitrary: i s rule: less_induct)
  case less
  obtain config err where s: "s = (config, err)" by (cases s)
  with less.prems have d: "1 \<le> depth config" by simp
  have IH: "1 \<le> depth (fst (parseArguments_loop argv i' s'))"
    if "i < i'" "i < length argv" "1 \<le> depth (fst s')" for i' s'
    using that by (intro less.hyps) linarith+
  consider (stop) "length argv \<le> i"
    | (help_flag) "i < length argv" "argv ! i = ''-h'' \<or> argv ! i = ''--help''"
    | (version) "i < length argv" "argv ! i = ''--version''"
    | (verbose) "i < length argv" "argv ! i = ''-v'' \<or> argv ! i = ''--verbose''"
    | (dry_run) "i < length argv" "argv ! i = ''-n'' \<or> argv ! i = ''--dry-run''"
    | (recursive) "i < length argv" "argv ! i = ''-r'' \<or> argv ! i = ''--recursive''"
    | (depth_ok) n where "i + 1 < length argv" "argv ! i = ''-d'' \<or> argv ! i = ''--depth''"
        "stoi (argv ! (i + 1)) = Inr n" "1 \<le> n"
    | (depth_small) n where "i + 1 < length argv" "argv ! i = ''-d'' \<or> argv ! i = ''--depth''"
        "stoi (argv ! (i + 1)) = Inr n" "n < 1"
    | (depth_invalid) e where "i + 1 < length argv" "argv ! i = ''-d'' \<or> argv ! i = ''--depth''"
        "stoi (argv ! (i + 1)) = Inl e"
    | (prefix) "i + 1 < length argv" "argv ! i = ''-p'' \<or> argv ! i = ''--prefix''"
    | (unknown) "i < length argv"
        "argv ! i \<notin> set [''-h'', ''--help'', ''--version'', ''-v'', ''--verbose'', ''-n'',
              ''--dry-run'', ''-r'', ''--recursive'']"
        "\<not> (argv ! i \<in> set [''-d'', ''--depth'', ''-p'', ''--prefix''] \<and> i + 1 < length argv)"
    using parse_cases [of argv i] by blast
  then show ?case
  proof cases
    case stop
    with d s show ?thesis by (simp add: parse_end)
  next
    case help_flag
    with d s IH show ?thesis by (simp add: parse_help)
  next
    case version
    with d s IH show ?thesis by (simp add: parse_version)
  next
    case verbose
    with d s IH show ?thesis by (simp add: parse_verbose)
  next
    case dry_run
    with d s IH show ?thesis by (simp add: parse_dry_run)
  next
    case recursive
    with d s IH show ?thesis by (simp add: parse_recursive)
  next
    case depth_ok
    with d s IH show ?thesis by (simp add: parse_depth_ok)
  next
    case depth_small
    with d s IH show ?thesis by (simp add: parse_depth_small)
  next
    case depth_invalid
    with d s IH show ?thesis by (simp add: parse_depth_invalid)
  next
    case prefix
    with d s IH show ?thesis by (simp add: parse_prefix)
  next
    case unknown
    from parse_unknown [OF unknown] d s IH [of "i + 1"] unknown(1) show ?thesis by simp
  qed
qed

lemma parseArguments_depth: "1 \<le> depth (fst (parseArguments argv))"
  by (simp add: parseArguments_def parseArguments_loop_depth default_config_def)

lemma parseArguments_single_depth:
  "parseArguments [p, ''--depth'', v]
     = (case stoi v of
          Inr n \<Rightarrow> if n < 1 then (default_config\<lparr>depth := 1\<rparr>, [WarnDepthTooSmall])
                   else (default_config\<lparr>depth := n\<rparr>, [])
        | Inl e \<Rightarrow> (default_config, [WarnInvalidDepth]))"
  by (cases "stoi v")
    (simp_all add: parseArguments_def parse_depth_ok parse_depth_small parse_depth_invalid
      parse_end)

text \<open>
  The handler of a failed \<^verbatim>\<open>std::stoi\<close> does not assign the depth and skips one more
  argument: an earlier depth stays, and the argument after the bad value is never read.
\<close>

lemma invalid_depth_keeps_earlier_value:
  "parseArguments [''forg'', ''-d'', ''5'', ''-d'', ''abc'']
    = (default_config\<lparr>depth := 5\<rparr>, [WarnInvalidDepth])"
  by code_simp

lemma invalid_depth_swallows_next_argument:
  "parseArguments [''forg'', ''-d'', ''abc'', ''-n''] = (default_config, [WarnInvalidDepth])"
  by code_simp

text \<open>
  C9, as the source has it. The parser produces a configuration for every argument list,
  and its depth is at least 1; with no argument it is the default configuration. A depth
  value is read by \<^verbatim>\<open>std::stoi\<close>, which takes the leading integer and ignores what
  follows it: when that integer is below 1, a warning is logged and the depth is set to
  1; when there is no leading integer, or it does not fit an \<^verbatim>\<open>int\<close>, a warning is
  logged, and a lone depth option leaves the default depth 1; a leading integer of at
  least 1 is taken as the depth with no warning. An argument that is no option, or an
  option that lacks its value, logs a warning and the parser goes on with the next
  argument.
\<close>

theorem parseArguments_total:
  "1 \<le> depth (fst (parseArguments argv))
   \<and> parseArguments [p] = (default_config, [])
   \<and> (i + 1 < length argv \<and> (argv ! i = ''-d'' \<or> argv ! i = ''--depth'')
        \<and> stoi (argv ! (i + 1)) = Inr n \<and> n < 1
      \<longrightarrow> parseArguments_loop argv i (config, err)
            = parseArguments_loop argv (i + 2) (config\<lparr>depth := 1\<rparr>, err @ [WarnDepthTooSmall]))
   \<and> (i + 1 < length argv \<and> (argv ! i = ''-d'' \<or> argv ! i = ''--depth'')
        \<and> stoi (argv ! (i + 1)) = Inl e
      \<longrightarrow> (\<exists>i' config'. i < i'
             \<and> parseArguments_loop argv i (config, err)
                 = parseArguments_loop argv i' (config', err @ [WarnInvalidDepth])))
   \<and> (i + 1 < length argv \<and> (argv ! i = ''-d'' \<or> argv ! i = ''--depth'')
        \<and> stoi (argv ! (i + 1)) = Inr n \<and> 1 \<le> n
      \<longrightarrow> parseArguments_loop argv i (config, err)
            = parseArguments_loop argv (i + 2) (config\<lparr>depth := n\<rparr>, err))
   \<and> (stoi v = Inr n \<and> n < 1
      \<longrightarrow> parseArguments [p, ''--depth'', v]
            = (default_config\<lparr>depth := 1\<rparr>, [WarnDepthTooSmall]))
   \<and> (stoi v = Inl e
      \<longrightarrow> parseArguments [p, ''--depth'', v] = (default_config, [WarnInvalidDepth]))
   \<and> (i < length argv
        \<and> argv ! i \<notin> set [''-h'', ''--help'', ''--version'', ''-v'', ''--verbose'', ''-n'',
              ''--dry-run'', ''-r'', ''--recursive'']
        \<and> \<not> (argv ! i \<in> set [''-d'', ''--depth'', ''-p'', ''--prefix''] \<and> i + 1 < length argv)
      \<longrightarrow> parseArguments_loop argv i (config, err)
            = parseArguments_loop argv (i + 1) (config, err @ [UnknownOption (argv ! i)]))"
proof -
  have c1: "1 \<le> depth (fst (parseArguments argv))"
    by (rule parseArguments_depth)
  have c2: "parseArguments [p] = (default_config, [])"
    by (simp add: parseArguments_def parse_end)
  have c3: "i + 1 < length argv \<and> (argv ! i = ''-d'' \<or> argv ! i = ''--depth'')
        \<and> stoi (argv ! (i + 1)) = Inr n \<and> n < 1
      \<longrightarrow> parseArguments_loop argv i (config, err)
            = parseArguments_loop argv (i + 2) (config\<lparr>depth := 1\<rparr>, err @ [WarnDepthTooSmall])"
    using parse_depth_small [of i argv n config err] by simp
  have c4: "i + 1 < length argv \<and> (argv ! i = ''-d'' \<or> argv ! i = ''--depth'')
        \<and> stoi (argv ! (i + 1)) = Inl e
      \<longrightarrow> (\<exists>i' config'. i < i'
             \<and> parseArguments_loop argv i (config, err)
                 = parseArguments_loop argv i' (config', err @ [WarnInvalidDepth]))"
  proof (intro impI)
    assume h: "i + 1 < length argv \<and> (argv ! i = ''-d'' \<or> argv ! i = ''--depth'')
        \<and> stoi (argv ! (i + 1)) = Inl e"
    then have "parseArguments_loop argv i (config, err)
        = parseArguments_loop argv (i + 3) (config, err @ [WarnInvalidDepth])"
      by (intro parse_depth_invalid) simp_all
    moreover have "i < i + 3" by simp
    ultimately show "\<exists>i' config'. i < i'
             \<and> parseArguments_loop argv i (config, err)
                 = parseArguments_loop argv i' (config', err @ [WarnInvalidDepth])"
      by blast
  qed
  have c5: "i + 1 < length argv \<and> (argv ! i = ''-d'' \<or> argv ! i = ''--depth'')
        \<and> stoi (argv ! (i + 1)) = Inr n \<and> 1 \<le> n
      \<longrightarrow> parseArguments_loop argv i (config, err)
            = parseArguments_loop argv (i + 2) (config\<lparr>depth := n\<rparr>, err)"
    using parse_depth_ok [of i argv n config err] by simp
  have c6: "stoi v = Inr n \<and> n < 1
      \<longrightarrow> parseArguments [p, ''--depth'', v]
            = (default_config\<lparr>depth := 1\<rparr>, [WarnDepthTooSmall])"
    by (simp add: parseArguments_single_depth)
  have c7: "stoi v = Inl e
      \<longrightarrow> parseArguments [p, ''--depth'', v] = (default_config, [WarnInvalidDepth])"
    by (simp add: parseArguments_single_depth)
  have c8: "i < length argv
        \<and> argv ! i \<notin> set [''-h'', ''--help'', ''--version'', ''-v'', ''--verbose'', ''-n'',
              ''--dry-run'', ''-r'', ''--recursive'']
        \<and> \<not> (argv ! i \<in> set [''-d'', ''--depth'', ''-p'', ''--prefix''] \<and> i + 1 < length argv)
      \<longrightarrow> parseArguments_loop argv i (config, err)
            = parseArguments_loop argv (i + 1) (config, err @ [UnknownOption (argv ! i)])"
    using parse_unknown [of i argv config err] by blast
  from c1 c2 c3 c4 c5 c6 c7 c8 show ?thesis
    by (intro conjI)
qed

theorem parseArguments_total_witness:
  "stoi ''0'' = Inr 0
   \<and> parseArguments [''forg'', ''--depth'', ''0'']
       = (default_config\<lparr>depth := 1\<rparr>, [WarnDepthTooSmall])
   \<and> stoi ''abc'' = Inl invalid_argument
   \<and> parseArguments [''forg'', ''--depth'', ''abc''] = (default_config, [WarnInvalidDepth])
   \<and> parseArguments_loop [''forg'', ''--fast''] 1 (default_config, [])
       = parseArguments_loop [''forg'', ''--fast''] 2 (default_config, [UnknownOption ''--fast''])"
proof -
  have zero: "stoi ''0'' = Inr 0" and abc: "stoi ''abc'' = Inl invalid_argument"
    by code_simp+
  note t1 = parseArguments_total [where p = "''forg''" and v = "''0''" and n = 0
      and argv = "[''forg'', ''--fast'']" and i = 1 and config = default_config and err = "[]"]
  note t2 = parseArguments_total [where p = "''forg''" and v = "''abc''" and e = invalid_argument]
  have a: "parseArguments [''forg'', ''--depth'', ''0'']
       = (default_config\<lparr>depth := 1\<rparr>, [WarnDepthTooSmall])"
    using t1 zero by simp
  have b: "parseArguments [''forg'', ''--depth'', ''abc''] = (default_config, [WarnInvalidDepth])"
    using t2 abc by simp
  have c: "parseArguments_loop [''forg'', ''--fast''] 1 (default_config, [])
       = parseArguments_loop [''forg'', ''--fast''] 2 (default_config, [UnknownOption ''--fast''])"
    using t1 by (simp add: numeral_2_eq_2)
  from zero abc a b c show ?thesis by blast
qed

theorem non_integer_depth_counterexample:
  "parseArguments [''forg'', ''--depth'', ''2.5''] = (default_config\<lparr>depth := 2\<rparr>, [])"
  by code_simp

subsection \<open>The directory walker\<close>

lemma shouldSkip_iff: "shouldSkip p = skipped_name (path_filename p)"
  by (auto simp: shouldSkip_def skipped_name_def Let_def)

lemma kind_not_Directory: "k \<noteq> Directory \<longleftrightarrow> k = RegularFile"
  by (cases k) simp_all

lemma found_under_entry:
  assumes "fst e \<noteq> []" and "e \<in> set (nodes w)" and "\<not> is_directory e"
    and "\<not> shouldSkip (fst e)"
    and "path_filename (fst e) \<noteq> programName" and "path_filename (fst e) \<noteq> ''forg''"
    and "1 \<le> k"
  shows "found_under w programName (butlast (fst e)) k
           (fst e, getCategory (getFileExtension (path_filename (fst e))))"
proof -
  from assms(3) have "snd e = RegularFile"
    by (simp add: is_directory_def kind_not_Directory)
  then have "e = (fst e, RegularFile)"
    by (metis prod.collapse)
  with assms(2) have "(fst e, RegularFile) \<in> set (nodes w)"
    by simp
  moreover from assms(1) have "fst e = butlast (fst e) @ [last (fst e)]" by simp
  moreover from assms(1,4) have "\<not> skipped_name (last (fst e))"
    by (simp add: shouldSkip_iff path_filename_def)
  ultimately show ?thesis
    using assms(5,6,7) unfolding found_under_def classify_def
    by (intro exI [of _ "[last (fst e)]"]) simp
qed

lemma found_under_parent:
  assumes "d \<noteq> []" and "\<not> shouldSkip d" and "found_under w programName d k pm"
  shows "found_under w programName (butlast d) (k + 1) pm"
proof -
  from assms(3) obtain rel where rel: "fst pm = d @ rel" "rel \<noteq> []" "int (length rel) \<le> k"
    "\<forall>n \<in> set rel. \<not> skipped_name n"
    and rest: "path_filename (fst pm) \<noteq> programName" "path_filename (fst pm) \<noteq> ''forg''"
      "(fst pm, RegularFile) \<in> set (nodes w)" "snd pm = classify (path_filename (fst pm))"
    unfolding found_under_def by blast
  from assms(1,2) have name: "\<not> skipped_name (last d)"
    by (simp add: shouldSkip_iff path_filename_def)
  from assms(1) rel(1) have "fst pm = butlast d @ (last d # rel)" by simp
  moreover from rel(3) have "int (length (last d # rel)) \<le> k + 1" by simp
  moreover from name rel(4) have "\<forall>n \<in> set (last d # rel). \<not> skipped_name n" by simp
  ultimately show ?thesis
    using rest unfolding found_under_def
    by (intro exI [of _ "last d # rel"]) simp
qed

lemma found_under_mono:
  "found_under w programName d k pm \<Longrightarrow> k \<le> k' \<Longrightarrow> found_under w programName d k' pm"
  unfolding found_under_def by force

lemma collectFiles_sound:
  "pm \<in> set (fst (collectFiles w config programName dir currentDepth maxDepth acc))
    \<Longrightarrow> pm \<in> set (fst acc) \<or> found_under w programName dir (maxDepth - currentDepth + 1) pm"
  and collectEntries_sound:
  "currentDepth \<le> maxDepth \<Longrightarrow> \<forall>e \<in> set entries. fst e \<noteq> [] \<and> e \<in> set (nodes w)
    \<Longrightarrow> pm \<in> set (fst (collectEntries w config programName currentDepth maxDepth entries acc))
    \<Longrightarrow> pm \<in> set (fst acc)
        \<or> (\<exists>e \<in> set entries.
              found_under w programName (butlast (fst e)) (maxDepth - currentDepth + 1) pm)"
proof (induction w config programName dir currentDepth maxDepth acc
    and w config programName currentDepth maxDepth entries acc
    rule: collectFiles_collectEntries.induct)
  case (1 w config programName dir currentDepth maxDepth acc)
  show ?case
  proof (cases "currentDepth > maxDepth")
    case True
    with "1.prems" show ?thesis by simp
  next
    case False
    show ?thesis
    proof (cases "directory_iterator w dir")
      case (Inl err)
      with False "1.prems" show ?thesis by simp
    next
      case (Inr entries)
      then have entries: "entries = filter (\<lambda>e. fst e \<noteq> [] \<and> butlast (fst e) = dir) (nodes w)"
        by (simp add: directory_iterator_def split: if_splits)
      then have ok: "\<forall>e \<in> set entries. fst e \<noteq> [] \<and> e \<in> set (nodes w)" by simp
      from False Inr "1.prems"
      have "pm \<in> set (fst (collectEntries w config programName currentDepth maxDepth entries acc))"
        by simp
      with "1.IH" [OF False Inr _ ok] False
      have "pm \<in> set (fst acc)
        \<or> (\<exists>e \<in> set entries.
              found_under w programName (butlast (fst e)) (maxDepth - currentDepth + 1) pm)"
        by simp
      with entries show ?thesis by auto
    qed
  qed
next
  case (2 w config programName currentDepth maxDepth acc)
  then show ?case by simp
next
  case (3 w config programName currentDepth maxDepth entry rest acc)
  let ?k = "maxDepth - currentDepth + 1"
  from "3.prems"(2) have entry: "fst entry \<noteq> []" "entry \<in> set (nodes w)"
    and rest: "\<forall>e \<in> set rest. fst e \<noteq> [] \<and> e \<in> set (nodes w)"
    by simp_all
  note depth = "3.prems"(1)
  note mem = "3.prems"(3)
  consider (skipdir) "is_directory entry" "shouldSkip (fst entry)"
    | (recurse) "is_directory entry" "\<not> shouldSkip (fst entry)"
        "recursive config \<and> currentDepth < maxDepth"
    | (leavedir) "is_directory entry" "\<not> shouldSkip (fst entry)"
        "\<not> (recursive config \<and> currentDepth < maxDepth)"
    | (program) "\<not> is_directory entry"
        "path_filename (fst entry) = programName \<or> path_filename (fst entry) = ''forg''"
    | (skipfile) "\<not> is_directory entry"
        "\<not> (path_filename (fst entry) = programName \<or> path_filename (fst entry) = ''forg'')"
        "shouldSkip (fst entry)"
    | (take) "\<not> is_directory entry"
        "\<not> (path_filename (fst entry) = programName \<or> path_filename (fst entry) = ''forg'')"
        "\<not> shouldSkip (fst entry)"
    by blast
  then show ?case
  proof cases
    case skipdir
    with mem "3.IH"(1) [OF skipdir depth rest] show ?thesis by (auto split: if_splits)
  next
    case recurse
    from recurse mem
    have "pm \<in> set (fst (collectEntries w config programName currentDepth maxDepth rest
        (collectFiles w config programName (fst entry) (currentDepth + 1) maxDepth acc)))"
      by simp
    with "3.IH"(3) [OF recurse depth rest]
    have "pm \<in> set (fst (collectFiles w config programName (fst entry) (currentDepth + 1) maxDepth acc))
        \<or> (\<exists>e \<in> set rest. found_under w programName (butlast (fst e)) ?k pm)"
      by simp
    then show ?thesis
    proof
      assume "pm \<in> set (fst (collectFiles w config programName (fst entry) (currentDepth + 1)
          maxDepth acc))"
      with "3.IH"(2) [OF recurse]
      have "pm \<in> set (fst acc)
          \<or> found_under w programName (fst entry) (maxDepth - (currentDepth + 1) + 1) pm"
        by simp
      then show ?thesis
      proof
        assume "found_under w programName (fst entry) (maxDepth - (currentDepth + 1) + 1) pm"
        with entry(1) recurse(2)
        have "found_under w programName (butlast (fst entry)) (maxDepth - (currentDepth + 1) + 1 + 1) pm"
          by (intro found_under_parent)
        then have "found_under w programName (butlast (fst entry)) ?k pm"
          by (simp add: algebra_simps)
        then show ?thesis by simp
      qed simp
    qed auto
  next
    case leavedir
    with mem "3.IH"(4) [OF leavedir depth rest] show ?thesis by (auto split: if_splits)
  next
    case program
    with mem "3.IH"(5) [OF program depth rest] show ?thesis by (auto split: if_splits)
  next
    case skipfile
    with mem "3.IH"(6) [OF skipfile depth rest] show ?thesis by (auto split: if_splits)
  next
    case take
    from take mem
    have "pm \<in> set (fst (collectEntries w config programName currentDepth maxDepth rest
        (fst acc @ [(fst entry, getCategory (getFileExtension (path_filename (fst entry))))],
         snd acc)))"
      by simp
    with "3.IH"(7) [OF take depth rest]
    have "pm \<in> set (fst acc)
        \<or> pm = (fst entry, getCategory (getFileExtension (path_filename (fst entry))))
        \<or> (\<exists>e \<in> set rest. found_under w programName (butlast (fst e)) ?k pm)"
      by auto
    moreover have "found_under w programName (butlast (fst entry)) ?k
        (fst entry, getCategory (getFileExtension (path_filename (fst entry))))"
      using entry take depth by (intro found_under_entry) simp_all
    ultimately show ?thesis by auto
  qed
qed

lemma collectTopLevel_sound:
  "\<forall>e \<in> set entries. fst e \<noteq> [] \<and> e \<in> set (nodes w)
    \<Longrightarrow> pm \<in> set (fst (collectTopLevel config programName entries acc))
    \<Longrightarrow> pm \<in> set (fst acc)
        \<or> (\<exists>e \<in> set entries. found_under w programName (butlast (fst e)) 1 pm)"
proof (induction config programName entries acc rule: collectTopLevel.induct)
  case (1 config programName acc)
  then show ?case by simp
next
  case (2 config programName entry rest files skippedCount out)
  from "2.prems"(1) have entry: "fst entry \<noteq> []" "entry \<in> set (nodes w)"
    and rest: "\<forall>e \<in> set rest. fst e \<noteq> [] \<and> e \<in> set (nodes w)"
    by simp_all
  note mem = "2.prems"(2)
  consider (dir) "is_directory entry"
    | (program) "\<not> is_directory entry"
        "path_filename (fst entry) = programName \<or> path_filename (fst entry) = ''forg''"
    | (skipfile) "\<not> is_directory entry"
        "\<not> (path_filename (fst entry) = programName \<or> path_filename (fst entry) = ''forg'')"
        "shouldSkip (fst entry)"
    | (take) "\<not> is_directory entry"
        "\<not> (path_filename (fst entry) = programName \<or> path_filename (fst entry) = ''forg'')"
        "\<not> shouldSkip (fst entry)"
    by blast
  then show ?case
  proof cases
    case dir
    with mem "2.IH"(1) [OF dir rest] show ?thesis by auto
  next
    case program
    with mem "2.IH"(2) [OF program rest] show ?thesis by auto
  next
    case skipfile
    with mem "2.IH"(3) [OF skipfile rest] show ?thesis by auto
  next
    case take
    from take mem
    have "pm \<in> set (fst (collectTopLevel config programName rest
        (files @ [(fst entry, getCategory (getFileExtension (path_filename (fst entry))))],
         skippedCount, out)))"
      by simp
    with "2.IH"(4) [OF take rest]
    have "pm \<in> set files
        \<or> pm = (fst entry, getCategory (getFileExtension (path_filename (fst entry))))
        \<or> (\<exists>e \<in> set rest. found_under w programName (butlast (fst e)) 1 pm)"
      by auto
    moreover have "found_under w programName (butlast (fst entry)) 1
        (fst entry, getCategory (getFileExtension (path_filename (fst entry))))"
      using entry take by (intro found_under_entry) simp_all
    ultimately show ?thesis by auto
  qed
qed

lemma collect_sound:
  assumes "collect config programName w = Inr (files, skippedCount, out)" and "pm \<in> set files"
  shows "found_under w programName (cwd w) (if recursive config then depth config else 1) pm"
proof (cases "recursive config")
  case True
  with assms
  have "pm \<in> set (fst (collectFiles w config programName (cwd w) 1 (depth config)
      ([], banner config (cwd w))))"
    by (auto simp: collect_def current_path_def split: prod.splits)
  from collectFiles_sound [OF this] True show ?thesis by simp
next
  case False
  with assms obtain entries where it: "directory_iterator w (cwd w) = Inr entries"
    and mem: "pm \<in> set (fst (collectTopLevel config programName entries
        ([], 0, banner config (cwd w))))"
    by (auto simp: collect_def current_path_def split: sum.splits)
  from it have entries: "entries = filter (\<lambda>e. fst e \<noteq> [] \<and> butlast (fst e) = cwd w) (nodes w)"
    by (simp add: directory_iterator_def split: if_splits)
  then have "\<forall>e \<in> set entries. fst e \<noteq> [] \<and> e \<in> set (nodes w)" by simp
  from collectTopLevel_sound [OF this mem] entries False show ?thesis by auto
qed

text \<open>
  C8. Whatever the mode, the path of every pending move lies below the working
  directory, and no name on the way from the working directory to the file, the file's
  own name included, starts with a dot or is in the skip list: a skipped directory is
  never entered and a skipped file is never taken. In particular \<open>.git\<close> and
  \<open>node_modules\<close> are such names.
\<close>

theorem skipped_names_never_pending:
  "(collect config programName w = Inr (files, skippedCount, out) \<and> (p, c) \<in> set files
      \<longrightarrow> \<not> shouldSkip p
          \<and> (\<exists>rel. p = cwd w @ rel \<and> rel \<noteq> []
                \<and> (\<forall>n \<in> set rel. \<not> starts_with_dot n \<and> n \<notin> set SKIP_PATTERNS)))
   \<and> (starts_with_dot n \<or> n \<in> set SKIP_PATTERNS \<longrightarrow> shouldSkip (d @ [n]))
   \<and> shouldSkip (d @ [''.git'']) \<and> shouldSkip (d @ [''node_modules''])"
proof -
  have pending: "\<not> shouldSkip p
          \<and> (\<exists>rel. p = cwd w @ rel \<and> rel \<noteq> []
                \<and> (\<forall>n \<in> set rel. \<not> starts_with_dot n \<and> n \<notin> set SKIP_PATTERNS))"
    if "collect config programName w = Inr (files, skippedCount, out)" "(p, c) \<in> set files"
  proof -
    from collect_sound [OF that]
    obtain rel where rel: "p = cwd w @ rel" "rel \<noteq> []" "\<forall>n \<in> set rel. \<not> skipped_name n"
      unfolding found_under_def by auto
    then have "\<not> skipped_name (last p)" by simp
    with rel have "\<not> shouldSkip p"
      by (simp add: shouldSkip_iff path_filename_def)
    with rel show ?thesis
      by (auto simp: skipped_name_def)
  qed
  have names: "starts_with_dot n \<or> n \<in> set SKIP_PATTERNS \<longrightarrow> shouldSkip (d @ [n])"
    by (simp add: shouldSkip_iff path_filename_def skipped_name_def)
  have git: "shouldSkip (d @ [''.git''])" "shouldSkip (d @ [''node_modules''])"
    by (simp_all add: shouldSkip_iff path_filename_def skipped_name_def SKIP_PATTERNS_def)
  from pending names git show ?thesis by blast
qed

theorem skipped_names_never_pending_witness:
  "collect (default_config\<lparr>recursive := True, depth := 3\<rparr>) ''forg'' sample
     = Inr ([([''home'', ''a.txt''], ''Documents''),
             ([''home'', ''sub'', ''b.JPG''], ''Images''),
             ([''home'', ''sub'', ''deep'', ''c.zip''], ''Archives'')],
            0, [OrganizingIn [''home''], RecursiveModeEnabled 3,
                ErrorAccessingDirectory [''home'', ''locked'']])
   \<and> \<not> shouldSkip [''home'', ''sub'', ''b.JPG'']
   \<and> (\<exists>rel. [''home'', ''sub'', ''b.JPG''] = cwd sample @ rel \<and> rel \<noteq> []
          \<and> (\<forall>n \<in> set rel. \<not> starts_with_dot n \<and> n \<notin> set SKIP_PATTERNS))
   \<and> shouldSkip [''home'', ''.hidden''] \<and> shouldSkip [''home'', ''build'']"
proof -
  have run: "collect (default_config\<lparr>recursive := True, depth := 3\<rparr>) ''forg'' sample
     = Inr ([([''home'', ''a.txt''], ''Documents''),
             ([''home'', ''sub'', ''b.JPG''], ''Images''),
             ([''home'', ''sub'', ''deep'', ''c.zip''], ''Archives'')],
            0, [OrganizingIn [''home''], RecursiveModeEnabled 3,
                ErrorAccessingDirectory [''home'', ''locked'']])"
    by code_simp
  have mem: "([''home'', ''sub'', ''b.JPG''], ''Images'')
      \<in> set [([''home'', ''a.txt''], ''Documents''),
             ([''home'', ''sub'', ''b.JPG''], ''Images''),
             ([''home'', ''sub'', ''deep'', ''c.zip''], ''Archives'')]"
    by simp
  have dot: "starts_with_dot ''.hidden''" and build: "''build'' \<in> set SKIP_PATTERNS"
    by (simp_all add: starts_with_dot_def SKIP_PATTERNS_def)
  note t = skipped_names_never_pending [where w = sample and programName = "''forg''"
      and config = "default_config\<lparr>recursive := True, depth := 3\<rparr>"
      and p = "[''home'', ''sub'', ''b.JPG'']" and c = "''Images''" and d = "[''home'']"]
  from t [where n = "''.hidden''"] run mem
  have a: "\<not> shouldSkip [''home'', ''sub'', ''b.JPG'']
   \<and> (\<exists>rel. [''home'', ''sub'', ''b.JPG''] = cwd sample @ rel \<and> rel \<noteq> []
          \<and> (\<forall>n \<in> set rel. \<not> starts_with_dot n \<and> n \<notin> set SKIP_PATTERNS))"
    by blast
  from t [where n = "''.hidden''"] dot have b: "shouldSkip [''home'', ''.hidden'']" by simp
  from t [where n = "''build''"] build have c: "shouldSkip [''home'', ''build'']" by simp
  from run a b c show ?thesis by blast
qed

lemma collectFiles_mono:
  "set (fst acc) \<subseteq> set (fst (collectFiles w config programName dir currentDepth maxDepth acc))"
  and collectEntries_mono:
  "set (fst acc)
    \<subseteq> set (fst (collectEntries w config programName currentDepth maxDepth entries acc))"
proof (induction w config programName dir currentDepth maxDepth acc
    and w config programName currentDepth maxDepth entries acc
    rule: collectFiles_collectEntries.induct)
  case (1 w config programName dir currentDepth maxDepth acc)
  show ?case
  proof (cases "currentDepth > maxDepth")
    case True
    then show ?thesis by simp
  next
    case False
    then show ?thesis
      using "1.IH" by (cases "directory_iterator w dir") simp_all
  qed
next
  case (2 w config programName currentDepth maxDepth acc)
  then show ?case by simp
next
  case (3 w config programName currentDepth maxDepth entry rest acc)
  consider (skipdir) "is_directory entry" "shouldSkip (fst entry)"
    | (recurse) "is_directory entry" "\<not> shouldSkip (fst entry)"
        "recursive config \<and> currentDepth < maxDepth"
    | (leavedir) "is_directory entry" "\<not> shouldSkip (fst entry)"
        "\<not> (recursive config \<and> currentDepth < maxDepth)"
    | (program) "\<not> is_directory entry"
        "path_filename (fst entry) = programName \<or> path_filename (fst entry) = ''forg''"
    | (skipfile) "\<not> is_directory entry"
        "\<not> (path_filename (fst entry) = programName \<or> path_filename (fst entry) = ''forg'')"
        "shouldSkip (fst entry)"
    | (take) "\<not> is_directory entry"
        "\<not> (path_filename (fst entry) = programName \<or> path_filename (fst entry) = ''forg'')"
        "\<not> shouldSkip (fst entry)"
    by blast
  then show ?case
  proof cases
    case skipdir
    with "3.IH"(1) [OF skipdir] show ?thesis by (auto split: if_splits)
  next
    case recurse
    with "3.IH"(2) [OF recurse] "3.IH"(3) [OF recurse] show ?thesis by auto
  next
    case leavedir
    with "3.IH"(4) [OF leavedir] show ?thesis by (auto split: if_splits)
  next
    case program
    with "3.IH"(5) [OF program] show ?thesis by (auto split: if_splits)
  next
    case skipfile
    with "3.IH"(6) [OF skipfile] show ?thesis by (auto split: if_splits)
  next
    case take
    with "3.IH"(7) [OF take] show ?thesis by auto
  qed
qed

lemma collectEntries_Cons_ex:
  "\<exists>acc'. collectEntries w config programName currentDepth maxDepth (entry # rest) acc
      = collectEntries w config programName currentDepth maxDepth rest acc'"
proof -
  consider (skipdir) "is_directory entry" "shouldSkip (fst entry)"
    | (recurse) "is_directory entry" "\<not> shouldSkip (fst entry)"
        "recursive config \<and> currentDepth < maxDepth"
    | (leavedir) "is_directory entry" "\<not> shouldSkip (fst entry)"
        "\<not> (recursive config \<and> currentDepth < maxDepth)"
    | (program) "\<not> is_directory entry"
        "path_filename (fst entry) = programName \<or> path_filename (fst entry) = ''forg''"
    | (skipfile) "\<not> is_directory entry"
        "\<not> (path_filename (fst entry) = programName \<or> path_filename (fst entry) = ''forg'')"
        "shouldSkip (fst entry)"
    | (take) "\<not> is_directory entry"
        "\<not> (path_filename (fst entry) = programName \<or> path_filename (fst entry) = ''forg'')"
        "\<not> shouldSkip (fst entry)"
    by blast
  then show ?thesis
  proof cases
    case skipdir
    then have "collectEntries w config programName currentDepth maxDepth (entry # rest) acc
      = collectEntries w config programName currentDepth maxDepth rest
          (if verbose config then (fst acc, snd acc @ [SkippingPath (fst entry)]) else acc)"
      by (auto simp del: collectFiles.simps)
    then show ?thesis by (rule exI)
  next
    case recurse
    then have "collectEntries w config programName currentDepth maxDepth (entry # rest) acc
      = collectEntries w config programName currentDepth maxDepth rest
          (collectFiles w config programName (fst entry) (currentDepth + 1) maxDepth acc)"
      by (auto simp del: collectFiles.simps)
    then show ?thesis by (rule exI)
  next
    case leavedir
    then have "collectEntries w config programName currentDepth maxDepth (entry # rest) acc
      = collectEntries w config programName currentDepth maxDepth rest
          (if verbose config
           then (fst acc, snd acc @ [SkippingDirectory (path_filename (fst entry))]) else acc)"
      by (auto simp del: collectFiles.simps)
    then show ?thesis by (rule exI)
  next
    case program
    then have "collectEntries w config programName currentDepth maxDepth (entry # rest) acc
      = collectEntries w config programName currentDepth maxDepth rest
          (if verbose config
           then (fst acc, snd acc @ [SkippingProgramFile (path_filename (fst entry))]) else acc)"
      by (auto simp del: collectFiles.simps)
    then show ?thesis by (rule exI)
  next
    case skipfile
    then have "collectEntries w config programName currentDepth maxDepth (entry # rest) acc
      = collectEntries w config programName currentDepth maxDepth rest
          (if verbose config
           then (fst acc, snd acc @ [SkippingFile (path_filename (fst entry))]) else acc)"
      by (auto simp del: collectFiles.simps)
    then show ?thesis by (rule exI)
  next
    case take
    then have "collectEntries w config programName currentDepth maxDepth (entry # rest) acc
      = collectEntries w config programName currentDepth maxDepth rest
          (fst acc @ [(fst entry, getCategory (getFileExtension (path_filename (fst entry))))],
           snd acc)"
      by (auto simp del: collectFiles.simps)
    then show ?thesis by (rule exI)
  qed
qed

lemma collectEntries_takes_file:
  "e \<in> set entries \<Longrightarrow> \<not> is_directory e
    \<Longrightarrow> \<not> (path_filename (fst e) = programName \<or> path_filename (fst e) = ''forg'')
    \<Longrightarrow> \<not> shouldSkip (fst e)
    \<Longrightarrow> (fst e, getCategory (getFileExtension (path_filename (fst e))))
        \<in> set (fst (collectEntries w config programName currentDepth maxDepth entries acc))"
proof (induction entries arbitrary: acc)
  case Nil
  then show ?case by simp
next
  case (Cons entry rest)
  show ?case
  proof (cases "e = entry")
    case True
    with Cons.prems
    have "collectEntries w config programName currentDepth maxDepth (entry # rest) acc
      = collectEntries w config programName currentDepth maxDepth rest
          (fst acc @ [(fst entry, getCategory (getFileExtension (path_filename (fst entry))))],
           snd acc)"
      by simp
    with True collectEntries_mono [of "(fst acc @ [(fst entry,
        getCategory (getFileExtension (path_filename (fst entry))))], snd acc)"
        w config programName currentDepth maxDepth rest]
    show ?thesis by auto
  next
    case False
    with Cons.prems have "e \<in> set rest" by simp
    moreover obtain acc' where
      "collectEntries w config programName currentDepth maxDepth (entry # rest) acc
        = collectEntries w config programName currentDepth maxDepth rest acc'"
      using collectEntries_Cons_ex by blast
    ultimately show ?thesis using Cons.IH Cons.prems by simp
  qed
qed

lemma collectEntries_enters_dir:
  "e \<in> set entries \<Longrightarrow> is_directory e \<Longrightarrow> \<not> shouldSkip (fst e)
    \<Longrightarrow> recursive config \<and> currentDepth < maxDepth
    \<Longrightarrow> (\<And>acc. x \<in> set (fst (collectFiles w config programName (fst e) (currentDepth + 1)
                maxDepth acc)))
    \<Longrightarrow> x \<in> set (fst (collectEntries w config programName currentDepth maxDepth entries acc))"
proof (induction entries arbitrary: acc)
  case Nil
  then show ?case by simp
next
  case (Cons entry rest)
  show ?case
  proof (cases "e = entry")
    case True
    with Cons.prems
    have "collectEntries w config programName currentDepth maxDepth (entry # rest) acc
      = collectEntries w config programName currentDepth maxDepth rest
          (collectFiles w config programName (fst entry) (currentDepth + 1) maxDepth acc)"
      by simp
    moreover from True Cons.prems(5)
    have "x \<in> set (fst (collectFiles w config programName (fst entry) (currentDepth + 1)
        maxDepth acc))"
      by simp
    ultimately show ?thesis
      using collectEntries_mono [of "collectFiles w config programName (fst entry)
          (currentDepth + 1) maxDepth acc" w config programName currentDepth maxDepth rest]
      by auto
  next
    case False
    with Cons.prems have "e \<in> set rest" by simp
    moreover obtain acc' where
      "collectEntries w config programName currentDepth maxDepth (entry # rest) acc
        = collectEntries w config programName currentDepth maxDepth rest acc'"
      using collectEntries_Cons_ex by blast
    ultimately show ?thesis using Cons.IH Cons.prems by simp
  qed
qed

lemma collectFiles_complete:
  "open_dirs w dir ds \<Longrightarrow> recursive config \<or> ds = []
    \<Longrightarrow> currentDepth + int (length ds) \<le> maxDepth
    \<Longrightarrow> (dir @ ds @ [f], RegularFile) \<in> set (nodes w)
    \<Longrightarrow> \<not> skipped_name f \<Longrightarrow> f \<noteq> programName \<Longrightarrow> f \<noteq> ''forg''
    \<Longrightarrow> (dir @ ds @ [f], classify f)
        \<in> set (fst (collectFiles w config programName dir currentDepth maxDepth acc))"
proof (induction ds arbitrary: dir currentDepth acc)
  case Nil
  let ?e = "(dir @ [f], RegularFile)"
  let ?entries = "filter (\<lambda>e. fst e \<noteq> [] \<and> butlast (fst e) = dir) (nodes w)"
  from Nil.prems have it: "directory_iterator w dir = Inr ?entries"
    by (simp add: directory_iterator_def)
  from Nil.prems have "?e \<in> set ?entries" by simp
  moreover have "\<not> is_directory ?e" by (simp add: is_directory_def)
  moreover from Nil.prems
  have "\<not> (path_filename (fst ?e) = programName \<or> path_filename (fst ?e) = ''forg'')"
    "\<not> shouldSkip (fst ?e)"
    by (simp_all add: path_filename_def shouldSkip_iff)
  ultimately
  have "(fst ?e, getCategory (getFileExtension (path_filename (fst ?e))))
      \<in> set (fst (collectEntries w config programName currentDepth maxDepth ?entries acc))"
    by (rule collectEntries_takes_file)
  with it Nil.prems show ?case
    by (simp add: classify_def path_filename_def)
next
  case (Cons d ds)
  let ?e = "(dir @ [d], Directory)"
  let ?entries = "filter (\<lambda>e. fst e \<noteq> [] \<and> butlast (fst e) = dir) (nodes w)"
  from Cons.prems have it: "directory_iterator w dir = Inr ?entries"
    by (simp add: directory_iterator_def)
  from Cons.prems have rec: "recursive config \<and> currentDepth < maxDepth" by simp
  from Cons.prems have "?e \<in> set ?entries" by simp
  moreover have "is_directory ?e" by (simp add: is_directory_def)
  moreover from Cons.prems have "\<not> shouldSkip (fst ?e)"
    by (simp add: path_filename_def shouldSkip_iff)
  moreover note rec
  moreover have "(dir @ (d # ds) @ [f], classify f)
      \<in> set (fst (collectFiles w config programName (fst ?e) (currentDepth + 1) maxDepth acc'))"
    for acc'
    using Cons.IH [of "dir @ [d]" "currentDepth + 1" acc'] Cons.prems by simp
  ultimately
  have "(dir @ (d # ds) @ [f], classify f)
      \<in> set (fst (collectEntries w config programName currentDepth maxDepth ?entries acc))"
    by (rule collectEntries_enters_dir)
  with it rec show ?case by simp
qed

end
